theory Spec2Isabelle
  imports Main "HOL-Library.Word" "HOL-Library.Signed_Division" "HOL-Library.Monad_Syntax"
begin

unbundle bit_operations_syntax

section \<open>Machine types of the AVR target\<close>

text \<open>
  The driver is written for AVR Arduino boards (it reads and writes the AVR registers
  \<open>SPCR\<close> and \<open>SPSR\<close>): \<open>byte\<close> and \<open>uint8_t\<close> are 8 bits, \<open>word\<close> and
  \<open>uint16_t\<close> are 16 bits, \<open>long\<close> is a signed 32-bit integer. A \<open>long\<close> is kept as
  a 32-bit word and read as two's complement with \<open>sint\<close> where the sign matters.
\<close>

type_synonym byte = "8 word"
type_synonym word16 = "16 word"
type_synonym long = "32 word"

section \<open>The bus, the handle and the hardware around it\<close>

text \<open>
  The serial bus is an external collaborator. It is modelled as a recording mock: every
  chip-select edge and every byte exchange is appended to \<open>trace\<close>, and the byte that
  the \<open>n\<close>-th exchange receives is \<open>replies n\<close>, for an arbitrary reply stream. Since the
  driver is deterministic, every behaviour of a device during one run is some reply stream.
\<close>

datatype event = Select | Unselect | Xfer byte byte

record flash =
  slaveSelectPin :: byte
  jedecID :: word16
  saved_SPCR :: byte
  saved_SPSR :: byte
  UNIQUEID :: "nat \<Rightarrow> byte"
  atmega32u4 :: bool
  SPCR :: byte
  SPSR :: byte
  DDRB :: byte
  PORTB :: byte
  interrupts_on :: bool
  pin_output :: "byte \<Rightarrow> bool"
  pin_high :: "byte \<Rightarrow> bool"
  spi_setup :: "byte \<times> byte \<Rightarrow> byte \<times> byte"
  replies :: "nat \<Rightarrow> byte"
  xfers :: nat
  trace :: "event list"

text \<open>
  \<open>slaveSelectPin\<close>, \<open>jedecID\<close>, \<open>saved_SPCR\<close> and \<open>saved_SPSR\<close> are the members
  \<open>_slaveSelectPin\<close>, \<open>_jedecID\<close>, \<open>_SPCR\<close> and \<open>_SPSR\<close> of the handle; \<open>UNIQUEID\<close> is
  the static 8-byte array. \<open>atmega32u4\<close> says whether the build defines
  \<open>__AVR_ATmega32U4__\<close>. \<open>spi_setup\<close> is what the Arduino SPI library calls
  \<open>setDataMode(SPI_MODE0); setBitOrder(MSBFIRST); setClockDivider(SPI_CLOCK_DIV4); begin()\<close>
  do to the register pair \<open>(SPCR, SPSR)\<close>; that library is not part of the repository,
  so its effect is a parameter.
\<close>

definition SPIFlash :: "byte \<Rightarrow> word16 \<Rightarrow> flash \<Rightarrow> flash" where
  "SPIFlash pin jedec s = s\<lparr>slaveSelectPin := pin, jedecID := jedec\<rparr>"

definition select :: "flash \<Rightarrow> flash" where
  "select s =
     (let s1 = s\<lparr>interrupts_on := False\<rparr>;
          s2 = s1\<lparr>saved_SPCR := SPCR s1\<rparr>;
          s3 = s2\<lparr>saved_SPSR := SPSR s2\<rparr>;
          s4 = s3\<lparr>SPCR := fst (spi_setup s3 (SPCR s3, SPSR s3)),
                   SPSR := snd (spi_setup s3 (SPCR s3, SPSR s3))\<rparr>
      in s4\<lparr>pin_high := (pin_high s4)(slaveSelectPin s4 := False),
             trace := trace s4 @ [Select]\<rparr>)"

definition unselect :: "flash \<Rightarrow> flash" where
  "unselect s =
     (let s1 = s\<lparr>pin_high := (pin_high s)(slaveSelectPin s := True),
                 trace := trace s @ [Unselect]\<rparr>;
          s2 = s1\<lparr>SPCR := saved_SPCR s1\<rparr>;
          s3 = s2\<lparr>SPSR := saved_SPSR s2\<rparr>
      in s3\<lparr>interrupts_on := True\<rparr>)"

definition SPI_transfer :: "byte \<Rightarrow> flash \<Rightarrow> byte \<times> flash" where
  "SPI_transfer b s =
     (replies s (xfers s),
      s\<lparr>xfers := Suc (xfers s), trace := trace s @ [Xfer b (replies s (xfers s))]\<rparr>)"

section \<open>Opcodes\<close>

text \<open>
  Modelled from the spec: the opcode macros are defined in the header \<open>SPIFlash.h\<close>, which
  is not among the sources; their values are taken from the wire protocol table.
\<close>

definition SPIFLASH_WRITEENABLE :: byte where "SPIFLASH_WRITEENABLE = 0x06"
definition SPIFLASH_STATUSREAD :: byte where "SPIFLASH_STATUSREAD = 0x05"
definition SPIFLASH_STATUSWRITE :: byte where "SPIFLASH_STATUSWRITE = 0x01"
definition SPIFLASH_ARRAYREAD :: byte where "SPIFLASH_ARRAYREAD = 0x0B"
definition SPIFLASH_ARRAYREADLOWFREQ :: byte where "SPIFLASH_ARRAYREADLOWFREQ = 0x03"
definition SPIFLASH_BYTEPAGEPROGRAM :: byte where "SPIFLASH_BYTEPAGEPROGRAM = 0x02"
definition SPIFLASH_BLOCKERASE_4K :: byte where "SPIFLASH_BLOCKERASE_4K = 0x20"
definition SPIFLASH_BLOCKERASE_32K :: byte where "SPIFLASH_BLOCKERASE_32K = 0x52"
definition SPIFLASH_CHIPERASE :: byte where "SPIFLASH_CHIPERASE = 0x60"
definition SPIFLASH_IDREAD :: byte where "SPIFLASH_IDREAD = 0x9F"
definition SPIFLASH_MACREAD :: byte where "SPIFLASH_MACREAD = 0x4B"
definition SPIFLASH_SLEEP :: byte where "SPIFLASH_SLEEP = 0xB9"
definition SPIFLASH_WAKE :: byte where "SPIFLASH_WAKE = 0xAB"

lemmas opcode_defs =
  SPIFLASH_WRITEENABLE_def SPIFLASH_STATUSREAD_def SPIFLASH_STATUSWRITE_def
  SPIFLASH_ARRAYREAD_def SPIFLASH_ARRAYREADLOWFREQ_def SPIFLASH_BYTEPAGEPROGRAM_def
  SPIFLASH_BLOCKERASE_4K_def SPIFLASH_BLOCKERASE_32K_def SPIFLASH_CHIPERASE_def
  SPIFLASH_IDREAD_def SPIFLASH_MACREAD_def SPIFLASH_SLEEP_def SPIFLASH_WAKE_def

section \<open>Status polling and command issuance\<close>

definition readStatus :: "flash \<Rightarrow> byte \<times> flash" where
  "readStatus s =
     (let s1 = select s;
          s2 = snd (SPI_transfer SPIFLASH_STATUSREAD s1);
          (status, s3) = SPI_transfer 0 s2
      in (status, unselect s3))"

definition busy :: "flash \<Rightarrow> bool \<times> flash" where
  "busy s = (let (status, s1) = readStatus s in (status AND 1 \<noteq> 0, s1))"

text \<open>
  \<open>while(busy());\<close> has no bound: with a device that never clears bit 0 it runs forever.
  Not returning is the value \<open>None\<close>.
\<close>

partial_function (option) wait_while_busy :: "flash \<Rightarrow> flash option" where
  "wait_while_busy s =
     (case busy s of (b, s1) \<Rightarrow> if b then wait_while_busy s1 else Some s1)"

text \<open>
  \<open>command\<close> calls itself once, for the write-enable, with \<open>isWrite\<close> at its default
  \<open>false\<close> (the default argument is declared in the header).
\<close>

function command :: "byte \<Rightarrow> bool \<Rightarrow> flash \<Rightarrow> flash option" where
  "command cmd isWrite s = do {
     let s0 = (if atmega32u4 s then s\<lparr>DDRB := DDRB s OR 1, PORTB := PORTB s OR 1\<rparr> else s);
     s1 \<leftarrow> (if isWrite
            then do { s' \<leftarrow> command SPIFLASH_WRITEENABLE False s0; Some (unselect s') }
            else Some s0);
     s2 \<leftarrow> wait_while_busy s1;
     Some (snd (SPI_transfer cmd (select s2)))
   }"
  by pat_completeness auto
termination
  by (relation "measure (\<lambda>(cmd, isWrite, s). if isWrite then 1 else 0)") auto

declare command.simps [simp del]

section \<open>Identification\<close>

definition readDeviceId :: "flash \<Rightarrow> (word16 \<times> flash) option" where
  "readDeviceId s = do {
     s1 \<leftarrow> (if atmega32u4 s then command SPIFLASH_IDREAD False s
            else Some (snd (SPI_transfer SPIFLASH_IDREAD (select s))));
     let (hi, s2) = SPI_transfer 0 s1;
     let jedecid = push_bit 8 (ucast hi :: word16);
     let (lo, s3) = SPI_transfer 0 s2;
     let jedecid = jedecid OR ucast lo;
     Some (jedecid, unselect s3)
   }"

function readUniqueId_loop :: "byte \<Rightarrow> flash \<Rightarrow> flash" where
  "readUniqueId_loop i s =
     (if i < 8
      then (let (b, s1) = SPI_transfer 0 s
            in readUniqueId_loop (i + 1) (s1\<lparr>UNIQUEID := (UNIQUEID s1)(unat i := b)\<rparr>))
      else s)"
  by pat_completeness auto
termination
proof (relation "measure (\<lambda>(i, s). 8 - unat i)", goal_cases)
  case (2 i s)
  then have "unat i < 8" by (simp add: word_less_nat_alt)
  then show ?case by (simp add: unat_word_ariths)
qed simp

declare readUniqueId_loop.simps [simp del]

definition readUniqueId :: "flash \<Rightarrow> flash option" where
  "readUniqueId s = do {
     s1 \<leftarrow> command SPIFLASH_MACREAD False s;
     let s2 = snd (SPI_transfer 0 s1);
     let s3 = snd (SPI_transfer 0 s2);
     let s4 = snd (SPI_transfer 0 s3);
     let s5 = snd (SPI_transfer 0 s4);
     let s6 = readUniqueId_loop 0 s5;
     Some (unselect s6)
   }"

section \<open>Read path\<close>

text \<open>
  The three address transfers \<open>SPI.transfer(addr >> 16); SPI.transfer(addr >> 8);
  SPI.transfer(addr);\<close> recur in every address-taking command. The shifts are arithmetic
  (\<open>addr\<close> is signed) and the argument is truncated to a byte.
\<close>

definition send_address :: "long \<Rightarrow> flash \<Rightarrow> flash" where
  "send_address addr s =
     (let s1 = snd (SPI_transfer (ucast (signed_drop_bit 16 addr)) s);
          s2 = snd (SPI_transfer (ucast (signed_drop_bit 8 addr)) s1)
      in snd (SPI_transfer (ucast addr) s2))"

definition readByte :: "long \<Rightarrow> flash \<Rightarrow> (byte \<times> flash) option" where
  "readByte addr s = do {
     s1 \<leftarrow> command SPIFLASH_ARRAYREADLOWFREQ False s;
     let s2 = send_address addr s1;
     let (result, s3) = SPI_transfer 0 s2;
     Some (result, unselect s3)
   }"

text \<open>
  A buffer passed by pointer is the memory behind the pointer: a function from the index
  to the byte there.
\<close>

function readBytes_loop :: "word16 \<Rightarrow> word16 \<Rightarrow> (nat \<Rightarrow> byte) \<Rightarrow> flash \<Rightarrow> (nat \<Rightarrow> byte) \<times> flash" where
  "readBytes_loop i len buf s =
     (if i < len
      then (let (b, s1) = SPI_transfer 0 s
            in readBytes_loop (i + 1) len (buf(unat i := b)) s1)
      else (buf, s))"
  by pat_completeness auto
termination
proof (relation "measure (\<lambda>(i, len, buf, s). unat len - unat i)", goal_cases)
  case (2 i len buf s)
  then have "unat i < unat len" by (simp add: word_less_nat_alt)
  moreover have "unat len < 65536" using unsigned_less [of len, where 'a = nat] by simp
  ultimately show ?case by (simp add: unat_word_ariths)
qed simp

declare readBytes_loop.simps [simp del]

definition readBytes :: "long \<Rightarrow> (nat \<Rightarrow> byte) \<Rightarrow> word16 \<Rightarrow> flash \<Rightarrow> ((nat \<Rightarrow> byte) \<times> flash) option" where
  "readBytes addr buf len s = do {
     s1 \<leftarrow> command SPIFLASH_ARRAYREAD False s;
     let s2 = send_address addr s1;
     let s3 = snd (SPI_transfer 0 s2);
     let (buf', s4) = readBytes_loop 0 len buf s3;
     Some (buf', unselect s4)
   }"

section \<open>Program path\<close>

definition writeByte :: "long \<Rightarrow> byte \<Rightarrow> flash \<Rightarrow> flash option" where
  "writeByte addr byt s = do {
     s1 \<leftarrow> command SPIFLASH_BYTEPAGEPROGRAM True s;
     let s2 = send_address addr s1;
     let s3 = snd (SPI_transfer byt s2);
     Some (unselect s3)
   }"

function writeBytes_send :: "word16 \<Rightarrow> word16 \<Rightarrow> (nat \<Rightarrow> byte) \<Rightarrow> word16 \<Rightarrow> flash \<Rightarrow> flash" where
  "writeBytes_send i n buf offset s =
     (if i < n
      then writeBytes_send (i + 1) n buf offset (snd (SPI_transfer (buf (unat (offset + i))) s))
      else s)"
  by pat_completeness auto
termination
proof (relation "measure (\<lambda>(i, n, buf, offset, s). unat n - unat i)", goal_cases)
  case (2 i n buf offset s)
  then have "unat i < unat n" by (simp add: word_less_nat_alt)
  moreover have "unat n < 65536" using unsigned_less [of n, where 'a = nat] by simp
  ultimately show ?case by (simp add: unat_word_ariths)
qed simp

declare writeBytes_send.simps [simp del]

text \<open>
  \<open>addr % 256\<close> is C's remainder, which truncates towards zero and takes the sign of
  \<open>addr\<close>; the difference is computed in \<open>long\<close> and then stored in a \<open>uint16_t\<close>.
\<close>

definition first_maxBytes :: "long \<Rightarrow> word16" where
  "first_maxBytes addr = ucast (256 - word_of_int (sint addr smod 256) :: long)"

text \<open>
  The loop \<open>while (len>0)\<close> ends because \<open>n\<close> is positive; that is a property of the
  values \<open>maxBytes\<close> takes, not of the loop's text, and each round may wait for the
  device without bound. The loop is therefore a partial function as well.
\<close>

partial_function (option) writeBytes_loop ::
    "long \<Rightarrow> (nat \<Rightarrow> byte) \<Rightarrow> word16 \<Rightarrow> word16 \<Rightarrow> word16 \<Rightarrow> flash \<Rightarrow> flash option" where
  "writeBytes_loop addr buf len maxBytes offset s =
     (if len > 0 then do {
        let n = (if len \<le> maxBytes then len else maxBytes);
        s1 \<leftarrow> command SPIFLASH_BYTEPAGEPROGRAM True s;
        let s2 = send_address addr s1;
        let s3 = writeBytes_send 0 n buf offset s2;
        let s4 = unselect s3;
        writeBytes_loop (addr + ucast n) buf (len - n) 256 (offset + n) s4
      } else Some s)"

definition writeBytes :: "long \<Rightarrow> (nat \<Rightarrow> byte) \<Rightarrow> word16 \<Rightarrow> flash \<Rightarrow> flash option" where
  "writeBytes addr buf len s = writeBytes_loop addr buf len (first_maxBytes addr) 0 s"

section \<open>Erase path and power\<close>

definition chipErase :: "flash \<Rightarrow> flash option" where
  "chipErase s = do { s1 \<leftarrow> command SPIFLASH_CHIPERASE True s; Some (unselect s1) }"

definition blockErase4K :: "long \<Rightarrow> flash \<Rightarrow> flash option" where
  "blockErase4K addr s = do {
     s1 \<leftarrow> command SPIFLASH_BLOCKERASE_4K True s;
     Some (unselect (send_address addr s1))
   }"

definition blockErase32K :: "long \<Rightarrow> flash \<Rightarrow> flash option" where
  "blockErase32K addr s = do {
     s1 \<leftarrow> command SPIFLASH_BLOCKERASE_32K True s;
     Some (unselect (send_address addr s1))
   }"

definition sleep :: "flash \<Rightarrow> flash option" where
  "sleep s = do { s1 \<leftarrow> command SPIFLASH_SLEEP False s; Some (unselect s1) }"

definition wakeup :: "flash \<Rightarrow> flash option" where
  "wakeup s = do { s1 \<leftarrow> command SPIFLASH_WAKE False s; Some (unselect s1) }"

section \<open>Initialization\<close>

text \<open>
  The condition \<open>_jedecID == 0 || readDeviceId() == _jedecID\<close> short-circuits: with an
  expected identifier of 0 the device identifier is not read.
\<close>

definition initialize :: "flash \<Rightarrow> (bool \<times> flash) option" where
  "initialize s = do {
     let s1 = s\<lparr>saved_SPCR := SPCR s\<rparr>;
     let s2 = s1\<lparr>saved_SPSR := SPSR s1\<rparr>;
     let s3 = s2\<lparr>pin_output := (pin_output s2)(slaveSelectPin s2 := True)\<rparr>;
     let s4 = unselect s3;
     s5 \<leftarrow> wakeup s4;
     (matches, s6) \<leftarrow> (if jedecID s5 = 0 then Some (True, s5)
                       else do { (devid, s') \<leftarrow> readDeviceId s5;
                                 Some (devid = jedecID s', s') });
     if matches then do {
       s7 \<leftarrow> command SPIFLASH_STATUSWRITE True s6;
       let s8 = snd (SPI_transfer 0 s7);
       Some (True, unselect s8)
     } else Some (False, s6)
   }"

section \<open>Transactions of a bus trace\<close>

text \<open>
  A transaction is what the bus sees between a select and the next unselect: the list of
  bytes exchanged, each with the byte received in return. \<open>frames\<close> reads the
  transactions off a recorded trace; \<open>wire\<close> writes them back, and
  \<open>frames (wire fs) = fs\<close>. The first byte sent in a transaction is its opcode.
  \<open>emitted s s'\<close> is what a call that took the state from \<open>s\<close> to
  \<open>s'\<close> added to the trace.
\<close>

type_synonym frame = "(byte \<times> byte) list"

definition exch :: "byte \<times> byte \<Rightarrow> event" where
  "exch p = Xfer (fst p) (snd p)"

definition frame_events :: "frame \<Rightarrow> event list" where
  "frame_events f = Select # map exch f @ [Unselect]"

definition wire :: "frame list \<Rightarrow> event list" where
  "wire fs = concat (map frame_events fs)"

fun frames_from :: "frame option \<Rightarrow> event list \<Rightarrow> frame list" where
  "frames_from cur [] = []"
| "frames_from cur (Select # es) = frames_from (Some []) es"
| "frames_from None (Unselect # es) = frames_from None es"
| "frames_from (Some f) (Unselect # es) = f # frames_from None es"
| "frames_from None (Xfer out inp # es) = frames_from None es"
| "frames_from (Some f) (Xfer out inp # es) = frames_from (Some (f @ [(out, inp)])) es"

definition frames :: "event list \<Rightarrow> frame list" where
  "frames es = frames_from None es"

definition emitted :: "flash \<Rightarrow> flash \<Rightarrow> event list" where
  "emitted s s' = drop (length (trace s)) (trace s')"

definition opcode :: "frame \<Rightarrow> byte option" where
  "opcode f = (case f of [] \<Rightarrow> None | x # xs \<Rightarrow> Some (fst x))"

definition is_status_read :: "frame \<Rightarrow> bool" where
  "is_status_read f \<longleftrightarrow> map fst f = [SPIFLASH_STATUSREAD, 0]"

definition status_of :: "frame \<Rightarrow> byte" where
  "status_of f = snd (last f)"

definition is_write_enable :: "frame \<Rightarrow> bool" where
  "is_write_enable f \<longleftrightarrow> map fst f = [SPIFLASH_WRITEENABLE]"

definition mutating_opcodes :: "byte list" where
  "mutating_opcodes = [SPIFLASH_STATUSWRITE, SPIFLASH_BYTEPAGEPROGRAM, SPIFLASH_BLOCKERASE_4K,
                       SPIFLASH_BLOCKERASE_32K, SPIFLASH_CHIPERASE]"

definition is_mutating :: "frame \<Rightarrow> bool" where
  "is_mutating f \<longleftrightarrow> (case opcode f of None \<Rightarrow> False | Some c \<Rightarrow> c \<in> set mutating_opcodes)"

definition is_program :: "frame \<Rightarrow> bool" where
  "is_program f \<longleftrightarrow> opcode f = Some SPIFLASH_BYTEPAGEPROGRAM"

definition is_id_read :: "frame \<Rightarrow> bool" where
  "is_id_read f \<longleftrightarrow> opcode f = Some SPIFLASH_IDREAD"

definition with_opcode :: "byte \<Rightarrow> frame list \<Rightarrow> frame list" where
  "with_opcode c fs = filter (\<lambda>f. opcode f = Some c) fs"

definition address_field :: "frame \<Rightarrow> byte list" where
  "address_field f = take 3 (drop 1 (map fst f))"

section \<open>The public operations as calls\<close>

text \<open>
  \<open>run\<close> performs one public operation and keeps the state it leaves; a
  property of every public operation is a property of \<open>run c\<close> for every
  \<open>c\<close>.
\<close>

datatype call =
    Initialize | ReadDeviceId | ReadUniqueId | ReadByte long
  | ReadBytes long "nat \<Rightarrow> byte" word16 | ReadStatus | Busy
  | WriteByte long byte | WriteBytes long "nat \<Rightarrow> byte" word16
  | ChipErase | BlockErase4K long | BlockErase32K long | Sleep | Wakeup

fun run :: "call \<Rightarrow> flash \<Rightarrow> flash option" where
  "run Initialize s = map_option snd (initialize s)"
| "run ReadDeviceId s = map_option snd (readDeviceId s)"
| "run ReadUniqueId s = readUniqueId s"
| "run (ReadByte addr) s = map_option snd (readByte addr s)"
| "run (ReadBytes addr buf len) s = map_option snd (readBytes addr buf len s)"
| "run ReadStatus s = Some (snd (readStatus s))"
| "run Busy s = Some (snd (busy s))"
| "run (WriteByte addr byt) s = writeByte addr byt s"
| "run (WriteBytes addr buf len) s = writeBytes addr buf len s"
| "run ChipErase s = chipErase s"
| "run (BlockErase4K addr) s = blockErase4K addr s"
| "run (BlockErase32K addr) s = blockErase32K addr s"
| "run Sleep s = sleep s"
| "run Wakeup s = wakeup s"

text \<open>
  The address-taking calls, each with the opcode of its command and the address it was
  given. A \<open>writeBytes\<close> of length 0 sends no command at all.
\<close>

fun addressed :: "call \<Rightarrow> (byte \<times> long) option" where
  "addressed (ReadByte a) = Some (SPIFLASH_ARRAYREADLOWFREQ, a)"
| "addressed (ReadBytes a buf len) = Some (SPIFLASH_ARRAYREAD, a)"
| "addressed (WriteByte a byt) = Some (SPIFLASH_BYTEPAGEPROGRAM, a)"
| "addressed (WriteBytes a buf len) =
     (if len = 0 then None else Some (SPIFLASH_BYTEPAGEPROGRAM, a))"
| "addressed (BlockErase4K a) = Some (SPIFLASH_BLOCKERASE_4K, a)"
| "addressed (BlockErase32K a) = Some (SPIFLASH_BLOCKERASE_32K, a)"
| "addressed c = None"

section \<open>Properties of a trace\<close>

definition select_count :: "flash \<Rightarrow> flash \<Rightarrow> nat" where
  "select_count s s' = count_list (emitted s s') Select"

definition unselect_count :: "flash \<Rightarrow> flash \<Rightarrow> nat" where
  "unselect_count s s' = count_list (emitted s s') Unselect"

text \<open>
  A busy-wait as it shows on the bus: STATUS-READ transactions, all but the last with
  bit 0 set in the status received, the last with bit 0 clear.
\<close>

fun polling :: "frame list \<Rightarrow> bool" where
  "polling [] = False"
| "polling [p] = (is_status_read p \<and> status_of p AND 1 = 0)"
| "polling (p # q # ps) = (is_status_read p \<and> status_of p AND 1 \<noteq> 0 \<and> polling (q # ps))"

text \<open>
  The write-enable discipline. \<open>armed\<close> says that a complete WRITE-ENABLE
  transaction (one byte, 0x06) has been seen and that only STATUS-READ transactions
  followed it; a transaction with a mutating opcode is accepted only when armed, and any
  transaction other than a status poll disarms.
\<close>

fun write_enabled :: "bool \<Rightarrow> frame list \<Rightarrow> bool" where
  "write_enabled armed [] = True"
| "write_enabled armed (f # fs) =
     (if is_write_enable f then write_enabled True fs
      else if is_status_read f then write_enabled armed fs
      else (is_mutating f \<longrightarrow> armed) \<and> write_enabled False fs)"

text \<open>
  The same discipline said of one transaction: among the transactions before it there is a
  complete WRITE-ENABLE, and everything after that WRITE-ENABLE is a STATUS-READ.
\<close>

definition after_write_enable :: "frame list \<Rightarrow> bool" where
  "after_write_enable pre \<longleftrightarrow>
     (\<exists>before w polls. pre = before @ w # polls \<and> is_write_enable w
        \<and> list_all is_status_read polls)"

text \<open>
  The stricter reading: the transaction right before a mutating one is the WRITE-ENABLE.
\<close>

fun enable_adjacent :: "frame option \<Rightarrow> frame list \<Rightarrow> bool" where
  "enable_adjacent prev [] = True"
| "enable_adjacent prev (f # fs) =
     ((is_mutating f \<longrightarrow> (case prev of None \<Rightarrow> False | Some p \<Rightarrow> is_write_enable p))
      \<and> enable_adjacent (Some f) fs)"

text \<open>
  The busy discipline. \<open>ready\<close> says that a STATUS-READ has been seen and that
  the last one returned a status with bit 0 clear; every transaction other than a
  STATUS-READ is accepted only then.
\<close>

fun busy_checked :: "bool \<Rightarrow> frame list \<Rightarrow> bool" where
  "busy_checked ready [] = True"
| "busy_checked ready (f # fs) =
     (if is_status_read f then busy_checked (status_of f AND 1 = 0) fs
      else ready \<and> busy_checked ready fs)"

text \<open>
  The same discipline said of one transaction: among the transactions before it there is a
  STATUS-READ, and the last of them received a status with bit 0 clear.
\<close>

definition after_ready_poll :: "frame list \<Rightarrow> bool" where
  "after_ready_poll pre \<longleftrightarrow>
     (\<exists>before p others. pre = before @ p # others \<and> is_status_read p
        \<and> status_of p AND 1 = 0 \<and> list_all (\<lambda>g. \<not> is_status_read g) others)"

definition be24 :: "byte list \<Rightarrow> nat" where
  "be24 bs = foldl (\<lambda>acc b. acc * 256 + unat b) 0 bs"

text \<open>
  A program burst as the device sees it: the 24-bit address the three address bytes
  spell, and the data bytes that follow.
\<close>

definition burst_of :: "frame \<Rightarrow> nat \<times> byte list" where
  "burst_of f = (be24 (take 3 (drop 1 (map fst f))), drop 4 (map fst f))"

definition program_bursts :: "event list \<Rightarrow> (nat \<times> byte list) list" where
  "program_bursts t = map burst_of (filter is_program (frames t))"

text \<open>
  The bursts lie one after the other from address \<open>a\<close>: each starts where the
  one before ended, as far as the 24 address bits on the wire can tell.
\<close>

fun contiguous :: "int \<Rightarrow> (nat \<times> byte list) list \<Rightarrow> bool" where
  "contiguous a [] = True"
| "contiguous a (b # bs) =
     (int (fst b) = a mod 2 ^ 24 \<and> contiguous (a + int (length (snd b))) bs)"

text \<open>
  A burst stays within one 256-byte page (and carries at least one byte).
\<close>

definition within_page :: "nat \<times> byte list \<Rightarrow> bool" where
  "within_page b \<longleftrightarrow> snd b \<noteq> [] \<and> fst b mod 256 + length (snd b) \<le> 256"

text \<open>
  The page-split law of \<open>writeBytes(addr, buf, len)\<close> for a list of bursts:
  they tile \<open>[addr, addr + len)\<close>, none crosses a multiple of 256, their data
  in order is \<open>buf[0..len)\<close>, the first has at most
  \<open>256 - addr mod 256\<close> bytes and every later one at most 256.
\<close>

definition page_split_law ::
    "long \<Rightarrow> (nat \<Rightarrow> byte) \<Rightarrow> word16 \<Rightarrow> (nat \<times> byte list) list \<Rightarrow> bool" where
  "page_split_law addr buf len bs \<longleftrightarrow>
     contiguous (sint addr) bs \<and> list_all within_page bs
     \<and> concat (map snd bs) = map buf [0..<unat len]
     \<and> (case bs of [] \<Rightarrow> True
         | b # rest \<Rightarrow> length (snd b) \<le> nat (256 - sint addr mod 256)
                       \<and> list_all (\<lambda>b. length (snd b) \<le> 256) rest)"

text \<open>
  The three address bytes as the specification writes them:
  \<open>(a >> 16) & 0xFF\<close>, \<open>(a >> 8) & 0xFF\<close>, \<open>a & 0xFF\<close>.
\<close>

definition big_endian_24 :: "long \<Rightarrow> byte list" where
  "big_endian_24 a =
     [ucast (drop_bit 16 a AND 0xFF), ucast (drop_bit 8 a AND 0xFF), ucast (a AND 0xFF)]"

text \<open>
  Each transaction of the list carries the big-endian bytes of the current address, which
  starts at \<open>a\<close> and advances by the number of data bytes of the transaction
  (all its bytes but the opcode and the three address bytes).
\<close>

fun addressed_from :: "long \<Rightarrow> frame list \<Rightarrow> bool" where
  "addressed_from a [] = True"
| "addressed_from a (f # fs) =
     (address_field f = big_endian_24 a \<and> addressed_from (a + of_nat (length f - 4)) fs)"

definition jedec_word :: "byte \<Rightarrow> byte \<Rightarrow> word16" where
  "jedec_word hi lo = push_bit 8 (ucast hi) OR ucast lo"

text \<open>
  The identifier word of the first JEDEC-ID transaction of a trace, if there is one.
\<close>

definition device_id :: "frame list \<Rightarrow> word16 option" where
  "device_id fs =
     (case filter is_id_read fs of
        [] \<Rightarrow> None
      | f # rest \<Rightarrow> Some (jedec_word (snd (f ! 1)) (snd (f ! 2))))"

section \<open>Benches\<close>

text \<open>
  Concrete machines on which the operations are run: a handle on a bus whose device
  answers with a given reply stream.
\<close>

definition no_reply :: "nat \<Rightarrow> byte" where
  "no_reply n = 0"

definition bench :: "(nat \<Rightarrow> byte) \<Rightarrow> flash" where
  "bench r = \<lparr>slaveSelectPin = 8, jedecID = 0, saved_SPCR = 0, saved_SPSR = 0,
     UNIQUEID = no_reply, atmega32u4 = False, SPCR = 0, SPSR = 0, DDRB = 0, PORTB = 0,
     interrupts_on = True, pin_output = (\<lambda>p. False), pin_high = (\<lambda>p. True),
     spi_setup = id, replies = r, xfers = 0, trace = []\<rparr>"

definition idle_flash :: flash where
  "idle_flash = SPIFlash 8 0 (bench no_reply)"

text \<open>
  The idle bench in a build for the ATmega32U4.
\<close>

definition leonardo_flash :: flash where
  "leonardo_flash = idle_flash\<lparr>atmega32u4 := True\<rparr>"

text \<open>
  A source buffer holding 1, 2, 3, ...
\<close>

definition demo_buf :: "nat \<Rightarrow> byte" where "demo_buf i = of_nat i + 1"

definition winbond_replies :: "nat \<Rightarrow> byte" where
  "winbond_replies n = (if n = 4 then 0xEF else if n = 5 then 0x30 else 0)"

definition other_replies :: "nat \<Rightarrow> byte" where
  "other_replies n = (if n = 4 then 0xEF else if n = 5 then 0x40 else 0)"

definition ramp_replies :: "nat \<Rightarrow> byte" where
  "ramp_replies n = 2 * of_nat n"

definition id_replies :: "nat \<Rightarrow> byte" where
  "id_replies n = (if n = 1 then 0xEF else if n = 2 then 0x30 else 0)"

section \<open>The shape of what each operation emits\<close>

text \<open>
  The predicates below describe the transactions an operation emits:
  a run of status polls that ends with the first one that reports ready, the preamble
  \<open>command\<close> sends before an opcode, a whole command transaction, and the
  sequence of program bursts of \<open>writeBytes\<close>, which follows the loop's
  arithmetic step by step.
\<close>

definition same_setup :: "flash \<Rightarrow> flash \<Rightarrow> bool" where
  "same_setup s s' \<longleftrightarrow>
     jedecID s' = jedecID s \<and> atmega32u4 s' = atmega32u4 s \<and> replies s' = replies s"

definition preamble :: "bool \<Rightarrow> frame list \<Rightarrow> bool" where
  "preamble isWrite fs \<longleftrightarrow>
     (if isWrite
      then \<exists>ps r qs. fs = ps @ [(SPIFLASH_WRITEENABLE, r)] # qs \<and> polling ps \<and> polling qs
      else polling fs)"

definition sends :: "flash \<Rightarrow> frame \<Rightarrow> flash \<Rightarrow> bool" where
  "sends s f s' \<longleftrightarrow> trace s' = trace s @ map exch f \<and> same_setup s s'"

definition addr_bytes :: "long \<Rightarrow> byte list" where
  "addr_bytes addr =
     [ucast (signed_drop_bit 16 addr), ucast (signed_drop_bit 8 addr), ucast addr]"

definition transaction :: "byte \<Rightarrow> bool \<Rightarrow> frame \<Rightarrow> frame list \<Rightarrow> bool" where
  "transaction cmd isWrite f fs \<longleftrightarrow>
     (\<exists>pre r. fs = pre @ [(cmd, r) # f] \<and> preamble isWrite pre)"

inductive write_script ::
    "(nat \<Rightarrow> byte) \<Rightarrow> long \<Rightarrow> word16 \<Rightarrow> word16 \<Rightarrow> word16 \<Rightarrow> frame list \<Rightarrow> bool"
  for buf :: "nat \<Rightarrow> byte" where
  finished: "len = 0 \<Longrightarrow> write_script buf addr len maxBytes offset []"
| burst: "len > 0 \<Longrightarrow> n = (if len \<le> maxBytes then len else maxBytes)
     \<Longrightarrow> transaction SPIFLASH_BYTEPAGEPROGRAM True f fs
     \<Longrightarrow> map fst f = addr_bytes addr @ map (\<lambda>j. buf (unat (offset + of_nat j))) [0..<unat n]
     \<Longrightarrow> write_script buf (addr + ucast n) (len - n) 256 (offset + n) rest
     \<Longrightarrow> write_script buf addr len maxBytes offset (fs @ rest)"

definition id_frames :: "bool \<Rightarrow> byte \<Rightarrow> byte \<Rightarrow> frame list \<Rightarrow> bool" where
  "id_frames leonardo hi lo fs \<longleftrightarrow>
     (\<exists>pre r. fs = pre @ [[(SPIFLASH_IDREAD, r), (0, hi), (0, lo)]]
        \<and> (if leonardo then polling pre else pre = []))"

definition orderly :: "frame list \<Rightarrow> bool" where
  "orderly fs \<longleftrightarrow> (\<forall>a. write_enabled a fs) \<and> (\<forall>ok. busy_checked ok fs)"

definition split_ok ::
    "(nat \<Rightarrow> byte) \<Rightarrow> nat \<Rightarrow> nat \<Rightarrow> nat \<Rightarrow> nat \<Rightarrow> (nat \<times> byte list) list \<Rightarrow> bool" where
  "split_ok buf a len mx off bs \<longleftrightarrow>
     contiguous (int a) bs \<and> list_all within_page bs
     \<and> concat (map snd bs) = map buf [off..<off + len]
     \<and> (case bs of [] \<Rightarrow> True | b # rest \<Rightarrow> length (snd b) \<le> mx)
     \<and> list_all (\<lambda>b. length (snd b) \<le> 256) bs"

text \<open>
  A device that, from any point on, sooner or later answers a status poll with bit 0
  clear. On such a device every busy-wait ends.
\<close>

definition responsive :: "flash \<Rightarrow> bool" where
  "responsive s \<longleftrightarrow> (\<forall>p. \<exists>k. replies s (Suc (p + 2 * k)) AND 1 = 0)"

section \<open>Reading transactions off a trace\<close>

lemma same_setup_refl [simp]: "same_setup s s"
  by (simp add: same_setup_def)

lemma same_setup_trans: "same_setup s s1 \<Longrightarrow> same_setup s1 s2 \<Longrightarrow> same_setup s s2"
  by (simp add: same_setup_def)

lemma select_trace [simp]: "trace (select s) = trace s @ [Select]"
  by (simp add: select_def Let_def)

lemma unselect_trace [simp]: "trace (unselect s) = trace s @ [Unselect]"
  by (simp add: unselect_def Let_def)

lemma transfer_trace [simp]:
  "trace (snd (SPI_transfer b s)) = trace s @ [Xfer b (replies s (xfers s))]"
  by (simp add: SPI_transfer_def)

lemma transfer_fst [simp]: "fst (SPI_transfer b s) = replies s (xfers s)"
  by (simp add: SPI_transfer_def)

lemma select_xfers [simp]: "xfers (select s) = xfers s"
  by (simp add: select_def Let_def)

lemma unselect_xfers [simp]: "xfers (unselect s) = xfers s"
  by (simp add: unselect_def Let_def)

lemma transfer_xfers [simp]: "xfers (snd (SPI_transfer b s)) = Suc (xfers s)"
  by (simp add: SPI_transfer_def)

lemma select_setup [simp]:
  "jedecID (select s) = jedecID s" "atmega32u4 (select s) = atmega32u4 s"
  "replies (select s) = replies s"
  by (simp_all add: select_def Let_def)

lemma unselect_setup [simp]:
  "jedecID (unselect s) = jedecID s" "atmega32u4 (unselect s) = atmega32u4 s"
  "replies (unselect s) = replies s"
  by (simp_all add: unselect_def Let_def)

lemma transfer_setup [simp]:
  "jedecID (snd (SPI_transfer b s)) = jedecID s"
  "atmega32u4 (snd (SPI_transfer b s)) = atmega32u4 s"
  "replies (snd (SPI_transfer b s)) = replies s"
  by (simp_all add: SPI_transfer_def)

lemma frames_from_open:
  "frames_from (Some f) (map exch g @ Unselect # es) = (f @ g) # frames_from None es"
  by (induction g arbitrary: f) (auto simp: exch_def)

lemma frames_frame_events: "frames_from None (frame_events f @ es) = f # frames_from None es"
  using frames_from_open [of "[]" f es] by (simp add: frame_events_def)

lemma frames_wire_append: "frames_from None (wire fs @ es) = fs @ frames_from None es"
  by (induction fs) (simp_all add: wire_def frames_frame_events)

lemma frames_wire [simp]: "frames (wire fs) = fs"
proof -
  have "frames_from None (wire fs @ []) = fs @ frames_from None []"
    by (rule frames_wire_append)
  then show ?thesis by (simp add: frames_def)
qed

lemma frames_Unselect_wire [simp]: "frames (Unselect # wire fs) = fs"
  using frames_wire [of fs] by (simp add: frames_def)

lemma wire_append: "wire (fs @ gs) = wire fs @ wire gs"
  by (simp add: wire_def)

lemma wire_Nil [simp]: "wire [] = []"
  by (simp add: wire_def)

lemma wire_Cons: "wire (f # fs) = frame_events f @ wire fs"
  by (simp add: wire_def)

lemma emitted_append [simp]: "trace s' = trace s @ t \<Longrightarrow> emitted s s' = t"
  by (simp add: emitted_def)

section \<open>What the operations emit\<close>

lemma readStatus_trace:
  "trace (snd (readStatus s)) =
     trace s @ frame_events [(SPIFLASH_STATUSREAD, replies s (xfers s)),
                             (0, replies s (Suc (xfers s)))]"
  by (simp add: readStatus_def Let_def split_beta frame_events_def exch_def)

lemma readStatus_fst: "fst (readStatus s) = replies s (Suc (xfers s))"
  by (simp add: readStatus_def Let_def split_beta)

lemma readStatus_xfers: "xfers (snd (readStatus s)) = Suc (Suc (xfers s))"
  by (simp add: readStatus_def Let_def split_beta)

lemma readStatus_setup:   "jedecID (snd (readStatus s)) = jedecID s"
  "atmega32u4 (snd (readStatus s)) = atmega32u4 s"
  "replies (snd (readStatus s)) = replies s"
  by (simp_all add: readStatus_def Let_def split_beta)

lemma polling_Cons:
  "ps \<noteq> [] \<Longrightarrow> polling (p # ps) = (is_status_read p \<and> status_of p AND 1 \<noteq> 0 \<and> polling ps)"
  by (cases ps) simp_all

lemma polling_not_Nil: "polling ps \<Longrightarrow> ps \<noteq> []"
  by auto

lemma busy_trace:
  "trace (snd (busy s)) =
     trace s @ frame_events [(SPIFLASH_STATUSREAD, replies s (xfers s)),
                             (0, replies s (Suc (xfers s)))]"
  by (simp add: busy_def split_beta readStatus_trace)

lemma busy_fst: "fst (busy s) \<longleftrightarrow> replies s (Suc (xfers s)) AND 1 \<noteq> 0"
  by (simp add: busy_def split_beta readStatus_fst)

lemma busy_xfers: "xfers (snd (busy s)) = Suc (Suc (xfers s))"
  by (simp add: busy_def split_beta readStatus_xfers)

lemma busy_setup: "same_setup s (snd (busy s))"
  by (simp add: busy_def split_beta readStatus_setup same_setup_def)

lemma wait_while_busy_shape:
  assumes "wait_while_busy s = Some s'"
  shows "\<exists>ps. polling ps \<and> trace s' = trace s @ wire ps \<and> same_setup s s'"
  using assms
proof (induction rule: wait_while_busy.raw_induct [rotated 1, consumes 1])
  case (1 w s s')
  let ?p = "[(SPIFLASH_STATUSREAD, replies s (xfers s)), (0, replies s (Suc (xfers s)))]"
  have sr: "is_status_read ?p" by (simp add: is_status_read_def)
  have st: "status_of ?p = replies s (Suc (xfers s))" by (simp add: status_of_def)
  show ?case
  proof (cases "fst (busy s)")
    case True
    with 1(2) have "w (snd (busy s)) = Some s'" by (simp add: split_beta)
    from 1(1) [OF this] obtain ps where ps: "polling ps"
      "trace s' = trace (snd (busy s)) @ wire ps" "same_setup (snd (busy s)) s'" by blast
    from ps(1) have ne: "ps \<noteq> []" by auto
    have "polling (?p # ps)"
      using True ps(1) sr st by (simp add: polling_Cons [OF ne] busy_fst)
    moreover have "trace s' = trace s @ wire (?p # ps)"
      using ps(2) by (simp add: busy_trace wire_Cons)
    moreover have "same_setup s s'"
      using busy_setup ps(3) by (rule same_setup_trans)
    ultimately show ?thesis by blast
  next
    case False
    with 1(2) have s': "s' = snd (busy s)" by (simp add: split_beta)
    have "polling [?p]" using False sr st by (simp add: busy_fst)
    moreover have "trace s' = trace s @ wire [?p]"
      by (simp add: s' busy_trace wire_Cons)
    moreover have "same_setup s s'" by (simp add: s' busy_setup)
    ultimately show ?thesis by blast
  qed
qed

lemma command_plain_shape:
  assumes "command cmd False s = Some s'"
  shows "\<exists>ps r. polling ps \<and> trace s' = trace s @ wire ps @ [Select, Xfer cmd r]
           \<and> same_setup s s'"
proof -
  let ?s0 = "if atmega32u4 s then s\<lparr>DDRB := DDRB s OR 1, PORTB := PORTB s OR 1\<rparr> else s"
  have s0: "trace ?s0 = trace s" "same_setup s ?s0" by (simp_all add: same_setup_def)
  from assms obtain s2 where w: "wait_while_busy ?s0 = Some s2"
    and s': "s' = snd (SPI_transfer cmd (select s2))"
    by (auto simp: command.simps [of cmd False s] Let_def split: bind_splits)
  from wait_while_busy_shape [OF w] obtain ps where ps: "polling ps"
    "trace s2 = trace ?s0 @ wire ps" "same_setup ?s0 s2" by blast
  have "trace s' = trace s @ wire ps @ [Select, Xfer cmd (replies s2 (xfers s2))]"
    using ps(2) s0(1) by (simp add: s')
  moreover have "same_setup s s'"
    using same_setup_trans [OF s0(2) ps(3)] by (simp add: s' same_setup_def)
  ultimately show ?thesis using ps(1) by blast
qed

lemma command_shape:
  assumes "command cmd isWrite s = Some s'"
  shows "\<exists>pre r. preamble isWrite pre \<and> trace s' = trace s @ wire pre @ [Select, Xfer cmd r]
           \<and> same_setup s s'"
proof (cases isWrite)
  case False
  with command_plain_shape [of cmd s s'] assms show ?thesis
    by (auto simp: preamble_def)
next
  case True
  let ?s0 = "if atmega32u4 s then s\<lparr>DDRB := DDRB s OR 1, PORTB := PORTB s OR 1\<rparr> else s"
  have s0: "trace ?s0 = trace s" "same_setup s ?s0" by (simp_all add: same_setup_def)
  from assms True obtain sw s2 where we: "command SPIFLASH_WRITEENABLE False ?s0 = Some sw"
    and w: "wait_while_busy (unselect sw) = Some s2"
    and s': "s' = snd (SPI_transfer cmd (select s2))"
    by (auto simp: command.simps [of cmd True s] Let_def split: bind_splits)
  from command_plain_shape [OF we] obtain ps r where ps: "polling ps"
    "trace sw = trace ?s0 @ wire ps @ [Select, Xfer SPIFLASH_WRITEENABLE r]"
    "same_setup ?s0 sw" by blast
  from wait_while_busy_shape [OF w] obtain qs where qs: "polling qs"
    "trace s2 = trace (unselect sw) @ wire qs" "same_setup (unselect sw) s2" by blast
  have "trace s' = trace s @ wire (ps @ [(SPIFLASH_WRITEENABLE, r)] # qs)
                     @ [Select, Xfer cmd (replies s2 (xfers s2))]"
    using ps(2) qs(2) s0(1) by (simp add: s' wire_append wire_Cons frame_events_def exch_def)
  moreover have "same_setup s s'"
    using s0(2) ps(3) qs(3) by (simp add: s' same_setup_def)
  moreover have "preamble True (ps @ [(SPIFLASH_WRITEENABLE, r)] # qs)"
    using ps(1) qs(1) by (auto simp: preamble_def)
  ultimately have "\<exists>pre r. preamble True pre
      \<and> trace s' = trace s @ wire pre @ [Select, Xfer cmd r] \<and> same_setup s s'"
    by blast
  then show ?thesis using True by simp
qed

lemma sends_refl: "sends s [] s"
  by (simp add: sends_def)

lemma sends_trans: "sends s f s1 \<Longrightarrow> sends s1 g s2 \<Longrightarrow> sends s (f @ g) s2"
  by (auto simp: sends_def intro: same_setup_trans)

lemma sends_transfer: "sends s [(b, replies s (xfers s))] (snd (SPI_transfer b s))"
  by (simp add: sends_def exch_def same_setup_def)

lemma send_address_sends:
  "\<exists>f. map fst f = addr_bytes addr \<and> sends s f (send_address addr s)"
proof -
  let ?s1 = "snd (SPI_transfer (ucast (signed_drop_bit 16 addr)) s)"
  let ?s2 = "snd (SPI_transfer (ucast (signed_drop_bit 8 addr)) ?s1)"
  let ?f = "[(ucast (signed_drop_bit 16 addr), replies s (xfers s))]
          @ [(ucast (signed_drop_bit 8 addr), replies ?s1 (xfers ?s1))]
          @ [(ucast addr, replies ?s2 (xfers ?s2))]"
  have "sends s ?f (send_address addr s)"
    unfolding send_address_def Let_def
    by (rule sends_trans [OF sends_transfer sends_trans [OF sends_transfer sends_transfer]])
  moreover have "map fst ?f = addr_bytes addr" by (simp add: addr_bytes_def)
  ultimately show ?thesis by blast
qed

lemma word_less_unat_Suc:
  fixes i n :: "'a::len word"
  assumes "i < n"
  shows "unat (i + 1) = Suc (unat i)"
proof -
  have "unat i < unat n" using assms by (simp add: word_less_nat_alt)
  moreover have "unat n < 2 ^ LENGTH('a)" by (rule unsigned_less)
  ultimately have "Suc (unat i) < 2 ^ LENGTH('a)" by (rule le_less_trans [OF Suc_leI])
  then show ?thesis by (simp add: unat_word_ariths)
qed

lemma writeBytes_send_sends:
  "\<exists>f. map fst f = map (\<lambda>j. buf (unat (offset + of_nat j))) [unat i..<unat n]
       \<and> sends s f (writeBytes_send i n buf offset s)"
proof (induction i n buf offset s rule: writeBytes_send.induct)
  case (1 i n buf offset s)
  show ?case
  proof (cases "i < n")
    case True
    let ?s1 = "snd (SPI_transfer (buf (unat (offset + i))) s)"
    from 1 [OF True] obtain f where f:
      "map fst f = map (\<lambda>j. buf (unat (offset + of_nat j))) [unat (i + 1)..<unat n]"
      "sends ?s1 f (writeBytes_send (i + 1) n buf offset ?s1)" by blast
    have lt: "unat i < unat n" using True by (simp add: word_less_nat_alt)
    have suc: "unat (i + 1) = Suc (unat i)" using True by (rule word_less_unat_Suc)
    let ?g = "(buf (unat (offset + i)), replies s (xfers s)) # f"
    have "sends s ([(buf (unat (offset + i)), replies s (xfers s))] @ f)
            (writeBytes_send (i + 1) n buf offset ?s1)"
      using sends_transfer f(2) by (rule sends_trans)
    then have "sends s ?g (writeBytes_send i n buf offset s)"
      using True by (simp add: writeBytes_send.simps [of i])
    moreover have "map fst ?g = map (\<lambda>j. buf (unat (offset + of_nat j))) [unat i..<unat n]"
      using lt by (simp add: f(1) suc upt_conv_Cons)
    ultimately show ?thesis by blast
  next
    case False
    then have "\<not> unat i < unat n" by (simp add: word_less_nat_alt)
    then show ?thesis using False
      by (simp add: writeBytes_send.simps [of i] sends_refl)
  qed
qed

lemma readBytes_loop_sends:
  "\<exists>f. map fst f = replicate (unat len - unat i) 0
       \<and> sends s f (snd (readBytes_loop i len buf s))
       \<and> fst (readBytes_loop i len buf s)
           = (\<lambda>k. if unat i \<le> k \<and> k < unat len then snd (f ! (k - unat i)) else buf k)"
proof (induction i len buf s rule: readBytes_loop.induct)
  case (1 i len buf s)
  show ?case
  proof (cases "i < len")
    case True
    let ?b = "replies s (xfers s)"
    let ?s1 = "snd (SPI_transfer 0 s)"
    let ?buf1 = "buf(unat i := ?b)"
    have sp: "SPI_transfer 0 s = (?b, ?s1)" by (simp add: SPI_transfer_def)
    from 1 [OF True sp [symmetric]] obtain f where f:
      "map fst f = replicate (unat len - unat (i + 1)) 0"
      "sends ?s1 f (snd (readBytes_loop (i + 1) len ?buf1 ?s1))"
      "fst (readBytes_loop (i + 1) len ?buf1 ?s1)
         = (\<lambda>k. if unat (i + 1) \<le> k \<and> k < unat len then snd (f ! (k - unat (i + 1)))
                 else ?buf1 k)" by blast
    have lt: "unat i < unat len" using True by (simp add: word_less_nat_alt)
    have suc: "unat (i + 1) = Suc (unat i)" using True by (rule word_less_unat_Suc)
    have unf: "readBytes_loop i len buf s = readBytes_loop (i + 1) len ?buf1 ?s1"
      using True by (simp add: readBytes_loop.simps [of i] split_beta)
    let ?g = "(0, ?b) # f"
    have "sends s ([(0, ?b)] @ f) (snd (readBytes_loop (i + 1) len ?buf1 ?s1))"
      using sends_transfer f(2) by (rule sends_trans)
    then have "sends s ?g (snd (readBytes_loop i len buf s))" by (simp add: unf)
    moreover have "map fst ?g = replicate (unat len - unat i) 0"
    proof -
      have "replicate (unat len - unat i) (0::byte) = 0 # replicate (unat len - Suc (unat i)) 0"
        unfolding Suc_diff_Suc [OF lt, symmetric] by simp
      then show ?thesis by (simp add: f(1) suc)
    qed
    moreover have "fst (readBytes_loop i len buf s)
        = (\<lambda>k. if unat i \<le> k \<and> k < unat len then snd (?g ! (k - unat i)) else buf k)"
    proof
      fix k
      show "fst (readBytes_loop i len buf s) k
        = (if unat i \<le> k \<and> k < unat len then snd (?g ! (k - unat i)) else buf k)"
        using lt by (cases "k = unat i") (auto simp: unf f(3) suc nth_Cons' Suc_diff_le)
    qed
    ultimately show ?thesis by blast
  next
    case False
    then have "\<not> unat i < unat len" by (simp add: word_less_nat_alt)
    then show ?thesis using False
      by (auto simp: readBytes_loop.simps [of i] sends_refl fun_eq_iff)
  qed
qed

lemma readUniqueId_loop_sends:
  "\<exists>f. map fst f = replicate (8 - unat i) 0 \<and> sends s f (readUniqueId_loop i s)"
proof (induction i s rule: readUniqueId_loop.induct)
  case (1 i s)
  show ?case
  proof (cases "i < 8")
    case True
    let ?b = "replies s (xfers s)"
    let ?s1 = "snd (SPI_transfer 0 s)"
    let ?s2 = "?s1\<lparr>UNIQUEID := (UNIQUEID ?s1)(unat i := ?b)\<rparr>"
    have sp: "SPI_transfer 0 s = (?b, ?s1)" by (simp add: SPI_transfer_def)
    from 1 [OF True sp [symmetric]] obtain f where f:
      "map fst f = replicate (8 - unat (i + 1)) 0"
      "sends ?s2 f (readUniqueId_loop (i + 1) ?s2)" by blast
    have lt: "unat i < 8" using True by (simp add: word_less_nat_alt)
    have suc: "unat (i + 1) = Suc (unat i)" using True by (rule word_less_unat_Suc)
    have unf: "readUniqueId_loop i s = readUniqueId_loop (i + 1) ?s2"
      using True by (simp add: readUniqueId_loop.simps [of i] split_beta)
    have "sends s [(0, ?b)] ?s2"
      using sends_transfer [of s 0] by (simp add: sends_def same_setup_def)
    then have "sends s ([(0, ?b)] @ f) (readUniqueId_loop (i + 1) ?s2)"
      using f(2) by (rule sends_trans)
    then have "sends s ((0, ?b) # f) (readUniqueId_loop i s)" by (simp add: unf)
    moreover have "map fst ((0, ?b) # f) = replicate (8 - unat i) 0"
    proof -
      have "replicate (8 - unat i) (0::byte) = 0 # replicate (8 - Suc (unat i)) 0"
        unfolding Suc_diff_Suc [OF lt, symmetric] by simp
      then show ?thesis by (simp add: f(1) suc)
    qed
    ultimately show ?thesis by blast
  next
    case False
    then have "\<not> unat i < 8" by (simp add: word_less_nat_alt)
    then show ?thesis using False
      by (simp add: readUniqueId_loop.simps [of i] sends_refl)
  qed
qed

lemma command_then:
  assumes "command cmd w s = Some s1" and "sends s1 f s2"
  shows "\<exists>fs. transaction cmd w f fs \<and> trace (unselect s2) = trace s @ wire fs
           \<and> same_setup s (unselect s2)"
proof -
  from command_shape [OF assms(1)] obtain pre r where pre: "preamble w pre"
    "trace s1 = trace s @ wire pre @ [Select, Xfer cmd r]" "same_setup s s1" by blast
  have "trace (unselect s2) = trace s @ wire (pre @ [(cmd, r) # f])"
    using assms(2) pre(2)
    by (simp add: sends_def wire_append wire_Cons frame_events_def exch_def)
  moreover have "same_setup s (unselect s2)"
    using assms(2) pre(3) by (simp add: sends_def same_setup_def)
  moreover have "transaction cmd w f (pre @ [(cmd, r) # f])"
    using pre(1) by (auto simp: transaction_def)
  ultimately show ?thesis by blast
qed

lemma wakeup_shape:
  assumes "wakeup s = Some s'"
  shows "\<exists>fs. transaction SPIFLASH_WAKE False [] fs \<and> trace s' = trace s @ wire fs
           \<and> same_setup s s'"
proof -
  from assms obtain s1 where c: "command SPIFLASH_WAKE False s = Some s1"
    and s': "s' = unselect s1"
    by (auto simp: wakeup_def split: bind_splits)
  show ?thesis using command_then [OF c sends_refl] by (simp add: s')
qed

lemma sleep_shape:
  assumes "sleep s = Some s'"
  shows "\<exists>fs. transaction SPIFLASH_SLEEP False [] fs \<and> trace s' = trace s @ wire fs
           \<and> same_setup s s'"
proof -
  from assms obtain s1 where c: "command SPIFLASH_SLEEP False s = Some s1"
    and s': "s' = unselect s1"
    by (auto simp: sleep_def split: bind_splits)
  show ?thesis using command_then [OF c sends_refl] by (simp add: s')
qed

lemma chipErase_shape:
  assumes "chipErase s = Some s'"
  shows "\<exists>fs. transaction SPIFLASH_CHIPERASE True [] fs \<and> trace s' = trace s @ wire fs
           \<and> same_setup s s'"
proof -
  from assms obtain s1 where c: "command SPIFLASH_CHIPERASE True s = Some s1"
    and s': "s' = unselect s1"
    by (auto simp: chipErase_def split: bind_splits)
  show ?thesis using command_then [OF c sends_refl] by (simp add: s')
qed

lemma blockErase4K_shape:
  assumes "blockErase4K addr s = Some s'"
  shows "\<exists>fs f. transaction SPIFLASH_BLOCKERASE_4K True f fs \<and> map fst f = addr_bytes addr
           \<and> trace s' = trace s @ wire fs \<and> same_setup s s'"
proof -
  from assms obtain s1 where c: "command SPIFLASH_BLOCKERASE_4K True s = Some s1"
    and s': "s' = unselect (send_address addr s1)"
    by (auto simp: blockErase4K_def split: bind_splits)
  from send_address_sends obtain f where f: "map fst f = addr_bytes addr"
    "sends s1 f (send_address addr s1)" by blast
  show ?thesis using command_then [OF c f(2)] f(1) unfolding s' by blast
qed

lemma blockErase32K_shape:
  assumes "blockErase32K addr s = Some s'"
  shows "\<exists>fs f. transaction SPIFLASH_BLOCKERASE_32K True f fs \<and> map fst f = addr_bytes addr
           \<and> trace s' = trace s @ wire fs \<and> same_setup s s'"
proof -
  from assms obtain s1 where c: "command SPIFLASH_BLOCKERASE_32K True s = Some s1"
    and s': "s' = unselect (send_address addr s1)"
    by (auto simp: blockErase32K_def split: bind_splits)
  from send_address_sends obtain f where f: "map fst f = addr_bytes addr"
    "sends s1 f (send_address addr s1)" by blast
  show ?thesis using command_then [OF c f(2)] f(1) unfolding s' by blast
qed

lemma writeByte_shape:
  assumes "writeByte addr byt s = Some s'"
  shows "\<exists>fs f. transaction SPIFLASH_BYTEPAGEPROGRAM True f fs
           \<and> map fst f = addr_bytes addr @ [byt]
           \<and> trace s' = trace s @ wire fs \<and> same_setup s s'"
proof -
  from assms obtain s1 where c: "command SPIFLASH_BYTEPAGEPROGRAM True s = Some s1"
    and s': "s' = unselect (snd (SPI_transfer byt (send_address addr s1)))"
    by (auto simp: writeByte_def Let_def split: bind_splits)
  from send_address_sends obtain f where f: "map fst f = addr_bytes addr"
    "sends s1 f (send_address addr s1)" by blast
  let ?s2 = "send_address addr s1"
  let ?g = "f @ [(byt, replies ?s2 (xfers ?s2))]"
  have "sends s1 ?g (snd (SPI_transfer byt ?s2))"
    using f(2) sends_transfer by (rule sends_trans)
  from command_then [OF c this] obtain fs where
    "transaction SPIFLASH_BYTEPAGEPROGRAM True ?g fs" "trace s' = trace s @ wire fs"
    "same_setup s s'" unfolding s' by blast
  moreover have "map fst ?g = addr_bytes addr @ [byt]" by (simp add: f(1))
  ultimately show ?thesis by blast
qed

lemma readByte_shape:
  assumes "readByte addr s = Some (result, s')"
  shows "\<exists>fs f. transaction SPIFLASH_ARRAYREADLOWFREQ False (f @ [(0, result)]) fs
           \<and> map fst f = addr_bytes addr
           \<and> trace s' = trace s @ wire fs \<and> same_setup s s'"
proof -
  from assms obtain s1 where c: "command SPIFLASH_ARRAYREADLOWFREQ False s = Some s1"
    and s': "s' = unselect (snd (SPI_transfer 0 (send_address addr s1)))"
    and r: "result = fst (SPI_transfer 0 (send_address addr s1))"
    by (auto simp: readByte_def Let_def split_beta split: bind_splits)
  from send_address_sends obtain f where f: "map fst f = addr_bytes addr"
    "sends s1 f (send_address addr s1)" by blast
  let ?s2 = "send_address addr s1"
  have "sends s1 (f @ [(0, replies ?s2 (xfers ?s2))]) (snd (SPI_transfer 0 ?s2))"
    using f(2) sends_transfer by (rule sends_trans)
  from command_then [OF c this] obtain fs where
    "transaction SPIFLASH_ARRAYREADLOWFREQ False (f @ [(0, result)]) fs"
    "trace s' = trace s @ wire fs" "same_setup s s'" unfolding s' r transfer_fst by blast
  then show ?thesis using f(1) by blast
qed

lemma readBytes_shape:
  assumes "readBytes addr buf len s = Some (buf', s')"
  shows "\<exists>fs f d g. transaction SPIFLASH_ARRAYREAD False (f @ [(0, d)] @ g) fs
           \<and> map fst f = addr_bytes addr
           \<and> map fst g = replicate (unat len) 0
           \<and> buf' = (\<lambda>k. if k < unat len then snd (g ! k) else buf k)
           \<and> trace s' = trace s @ wire fs \<and> same_setup s s'"
proof -
  from assms obtain s1 where c: "command SPIFLASH_ARRAYREAD False s = Some s1"
    and s': "s' = unselect (snd (readBytes_loop 0 len buf
                   (snd (SPI_transfer 0 (send_address addr s1)))))"
    and b: "buf' = fst (readBytes_loop 0 len buf (snd (SPI_transfer 0 (send_address addr s1))))"
    by (auto simp: readBytes_def Let_def split_beta split: bind_splits)
  from send_address_sends obtain f where f: "map fst f = addr_bytes addr"
    "sends s1 f (send_address addr s1)" by blast
  let ?s2 = "send_address addr s1"
  let ?s3 = "snd (SPI_transfer 0 ?s2)"
  from readBytes_loop_sends [of len 0 ?s3 buf] have "\<exists>g.
    map fst g = replicate (unat len) 0
    \<and> sends ?s3 g (snd (readBytes_loop 0 len buf ?s3))
    \<and> fst (readBytes_loop 0 len buf ?s3)
       = (\<lambda>k. if k < unat len then snd (g ! k) else buf k)" by (simp cong: if_cong)
  then obtain g where g:
    "map fst g = replicate (unat len) 0"
    "sends ?s3 g (snd (readBytes_loop 0 len buf ?s3))"
    "fst (readBytes_loop 0 len buf ?s3)
       = (\<lambda>k. if k < unat len then snd (g ! k) else buf k)" by blast
  have "sends s1 (f @ [(0, replies ?s2 (xfers ?s2))] @ g) (snd (readBytes_loop 0 len buf ?s3))"
    by (rule sends_trans [OF f(2) sends_trans [OF sends_transfer g(2)]])
  from command_then [OF c this] show ?thesis
    using f(1) g(1) g(3) unfolding s' b by blast
qed

lemma readUniqueId_shape:
  assumes "readUniqueId s = Some s'"
  shows "\<exists>fs f. transaction SPIFLASH_MACREAD False f fs \<and> map fst f = replicate 12 0
           \<and> trace s' = trace s @ wire fs \<and> same_setup s s'"
proof -
  from assms obtain s1 where c: "command SPIFLASH_MACREAD False s = Some s1"
    and s': "s' = unselect (readUniqueId_loop 0 (snd (SPI_transfer 0 (snd (SPI_transfer 0
                    (snd (SPI_transfer 0 (snd (SPI_transfer 0 s1))))))))) "
    by (auto simp: readUniqueId_def Let_def split: bind_splits)
  let ?s2 = "snd (SPI_transfer 0 s1)"
  let ?s3 = "snd (SPI_transfer 0 ?s2)"
  let ?s4 = "snd (SPI_transfer 0 ?s3)"
  let ?s5 = "snd (SPI_transfer 0 ?s4)"
  from readUniqueId_loop_sends [of 0 ?s5] have "\<exists>g.
    map fst g = replicate 8 0 \<and> sends ?s5 g (readUniqueId_loop 0 ?s5)" by simp
  then obtain g where g:
    "map fst g = replicate 8 0" "sends ?s5 g (readUniqueId_loop 0 ?s5)" by blast
  let ?f = "[(0, replies s1 (xfers s1))] @ [(0, replies ?s2 (xfers ?s2))]
          @ [(0, replies ?s3 (xfers ?s3))] @ [(0, replies ?s4 (xfers ?s4))] @ g"
  have "sends s1 ?f (readUniqueId_loop 0 ?s5)"
    by (rule sends_trans [OF sends_transfer sends_trans [OF sends_transfer
          sends_trans [OF sends_transfer sends_trans [OF sends_transfer g(2)]]]])
  moreover have "map fst ?f = replicate 12 0"
    by (simp add: g(1) numeral_eq_Suc)
  ultimately show ?thesis using command_then [OF c, of ?f "readUniqueId_loop 0 ?s5"]
    unfolding s' by blast
qed

lemma readDeviceId_shape:
  assumes "readDeviceId s = Some (devid, s')"
  shows "\<exists>pre r hi lo. (if atmega32u4 s then polling pre else pre = [])
           \<and> devid = jedec_word hi lo
           \<and> trace s' = trace s @ wire (pre @ [[(SPIFLASH_IDREAD, r), (0, hi), (0, lo)]])
           \<and> same_setup s s'"
proof (cases "atmega32u4 s")
  case True
  with assms obtain s1 where c: "command SPIFLASH_IDREAD False s = Some s1"
    and s': "s' = unselect (snd (SPI_transfer 0 (snd (SPI_transfer 0 s1))))"
    and d: "devid = jedec_word (fst (SPI_transfer 0 s1))
                      (fst (SPI_transfer 0 (snd (SPI_transfer 0 s1))))"
    by (auto simp: readDeviceId_def Let_def split_beta jedec_word_def split: bind_splits)
  let ?s2 = "snd (SPI_transfer 0 s1)"
  let ?f = "[(0, replies s1 (xfers s1))] @ [(0, replies ?s2 (xfers ?s2))]"
  have "sends s1 ?f (snd (SPI_transfer 0 ?s2))"
    by (rule sends_trans [OF sends_transfer sends_transfer])
  from command_then [OF c this] obtain pre r where
    "preamble False pre"
    "trace s' = trace s @ wire (pre @ [(SPIFLASH_IDREAD, r) # ?f])" "same_setup s s'"
    unfolding s' transaction_def by blast
  then show ?thesis using True d by (auto simp: preamble_def)
next
  case False
  let ?s1 = "snd (SPI_transfer SPIFLASH_IDREAD (select s))"
  let ?s2 = "snd (SPI_transfer 0 ?s1)"
  from assms False have s': "s' = unselect (snd (SPI_transfer 0 ?s2))"
    and d: "devid = jedec_word (fst (SPI_transfer 0 ?s1)) (fst (SPI_transfer 0 ?s2))"
    by (auto simp: readDeviceId_def Let_def split_beta jedec_word_def split: bind_splits)
  have "trace s' = trace s @ wire ([] @ [[(SPIFLASH_IDREAD, replies s (xfers s)),
           (0, replies ?s1 (xfers ?s1)), (0, replies ?s2 (xfers ?s2))]])"
    by (simp add: s' wire_Cons frame_events_def exch_def)
  moreover have "same_setup s s'" by (simp add: s' same_setup_def)
  ultimately show ?thesis using False d by (metis transfer_fst)
qed

lemma writeBytes_loop_shape:
  assumes "writeBytes_loop addr buf len maxBytes offset s = Some s'"
  shows "\<exists>fs. write_script buf addr len maxBytes offset fs \<and> trace s' = trace s @ wire fs
           \<and> same_setup s s'"
  using assms
proof (induction rule: writeBytes_loop.raw_induct [rotated 1, consumes 1])
  case (1 loop addr buf len maxBytes offset s s')
  show ?case
  proof (cases "len > 0")
    case False
    with 1(2) have "s' = s" by simp
    moreover have "write_script buf addr len maxBytes offset []"
      using False by (auto intro: write_script.finished simp: word_gt_0)
    ultimately show ?thesis by auto
  next
    case True
    define n where "n = (if len \<le> maxBytes then len else maxBytes)"
    from 1(2) True obtain s1 where c: "command SPIFLASH_BYTEPAGEPROGRAM True s = Some s1"
      and rec: "loop (addr + ucast n) buf (len - n) 256 (offset + n)
                  (unselect (writeBytes_send 0 n buf offset (send_address addr s1))) = Some s'"
      by (auto simp: Let_def n_def split: bind_splits)
    let ?s2 = "send_address addr s1"
    let ?s3 = "writeBytes_send 0 n buf offset ?s2"
    from send_address_sends obtain f where f: "map fst f = addr_bytes addr"
      "sends s1 f ?s2" by blast
    from writeBytes_send_sends [of buf offset 0 n ?s2] have "\<exists>g.
      map fst g = map (\<lambda>j. buf (unat (offset + of_nat j))) [0..<unat n] \<and> sends ?s2 g ?s3"
      by simp
    then obtain g where g:
      "map fst g = map (\<lambda>j. buf (unat (offset + of_nat j))) [0..<unat n]"
      "sends ?s2 g ?s3" by blast
    have "sends s1 (f @ g) ?s3" using f(2) g(2) by (rule sends_trans)
    from command_then [OF c this] obtain fs where fs:
      "transaction SPIFLASH_BYTEPAGEPROGRAM True (f @ g) fs"
      "trace (unselect ?s3) = trace s @ wire fs" "same_setup s (unselect ?s3)" by blast
    from 1(1) [OF rec] obtain rest where rest:
      "write_script buf (addr + ucast n) (len - n) 256 (offset + n) rest"
      "trace s' = trace (unselect ?s3) @ wire rest" "same_setup (unselect ?s3) s'" by blast
    have "write_script buf addr len maxBytes offset (fs @ rest)"
      using True n_def fs(1) _ rest(1) by (rule write_script.burst) (simp add: f(1) g(1))
    moreover have "trace s' = trace s @ wire (fs @ rest)"
      unfolding rest(2) fs(2) by (simp add: wire_append)
    moreover have "same_setup s s'" using fs(3) rest(3) by (rule same_setup_trans)
    ultimately show ?thesis by blast
  qed
qed

lemma writeBytes_shape:
  assumes "writeBytes addr buf len s = Some s'"
  shows "\<exists>fs. write_script buf addr len (first_maxBytes addr) 0 fs
           \<and> trace s' = trace s @ wire fs \<and> same_setup s s'"
  using assms unfolding writeBytes_def by (rule writeBytes_loop_shape)

lemma initialize_shape:
  assumes "initialize s = Some (ok, s')"
  shows "\<exists>fw fi fu. transaction SPIFLASH_WAKE False [] fw
           \<and> trace s' = trace s @ Unselect # wire (fw @ fi @ fu)
           \<and> same_setup s s'
           \<and> (if jedecID s = 0 then fi = [] \<and> ok
               else \<exists>hi lo. id_frames (atmega32u4 s) hi lo fi
                      \<and> ok = (jedec_word hi lo = jedecID s))
           \<and> (if ok then \<exists>y. transaction SPIFLASH_STATUSWRITE True [(0, y)] fu else fu = [])"
proof -
  let ?s1 = "s\<lparr>saved_SPCR := SPCR s\<rparr>"
  let ?s2 = "?s1\<lparr>saved_SPSR := SPSR ?s1\<rparr>"
  let ?s3 = "?s2\<lparr>pin_output := (pin_output ?s2)(slaveSelectPin ?s2 := True)\<rparr>"
  let ?s4 = "unselect ?s3"
  have s4: "trace ?s4 = trace s @ [Unselect]" "same_setup s ?s4"
    by (simp_all add: same_setup_def)
  from assms obtain s5 where w: "wakeup ?s4 = Some s5"
    by (cases "wakeup ?s4") (simp_all add: initialize_def Let_def)
  define pr where "pr = (if jedecID s5 = 0 then Some (True, s5)
     else readDeviceId s5 \<bind> (\<lambda>(devid, s'). Some (devid = jedecID s', s')))"
  from assms w have "pr \<bind> (\<lambda>(matches, s6).
      if matches then command SPIFLASH_STATUSWRITE True s6 \<bind>
                 (\<lambda>s7. Some (True, unselect (snd (SPI_transfer 0 s7))))
      else Some (False, s6)) = Some (ok, s')"
    unfolding initialize_def Let_def pr_def by (simp only: Option.bind.simps)
  then obtain p where p: "pr = Some p"
    and fin': "(if fst p then command SPIFLASH_STATUSWRITE True (snd p) \<bind>
                 (\<lambda>s7. Some (True, unselect (snd (SPI_transfer 0 s7))))
               else Some (False, snd p)) = Some (ok, s')"
    by (cases pr) (simp_all add: split_beta)
  define m where "m = fst p"
  define s6 where "s6 = snd p"
  have probe: "(if jedecID s5 = 0 then Some (True, s5)
                 else readDeviceId s5 \<bind> (\<lambda>(devid, s'). Some (devid = jedecID s', s')))
                = Some (m, s6)"
    using p unfolding pr_def m_def s6_def by simp
  have fin: "(if m then command SPIFLASH_STATUSWRITE True s6 \<bind>
                 (\<lambda>s7. Some (True, unselect (snd (SPI_transfer 0 s7))))
               else Some (False, s6)) = Some (ok, s')"
    using fin' unfolding m_def s6_def .
  from wakeup_shape [OF w] obtain fw where fw: "transaction SPIFLASH_WAKE False [] fw"
    "trace s5 = trace ?s4 @ wire fw" "same_setup ?s4 s5" by blast
  have j5: "jedecID s5 = jedecID s" "atmega32u4 s5 = atmega32u4 s"
    using fw(3) s4(2) by (simp_all add: same_setup_def)
  have "\<exists>fi. trace s6 = trace s5 @ wire fi \<and> same_setup s5 s6
          \<and> (if jedecID s = 0 then fi = [] \<and> m
              else \<exists>hi lo. id_frames (atmega32u4 s) hi lo fi
                     \<and> m = (jedec_word hi lo = jedecID s))"
  proof (cases "jedecID s = 0")
    case True
    with probe j5 have "m" "s6 = s5" by simp_all
    then show ?thesis using True by (intro exI [of _ "[]"]) simp
  next
    case False
    with probe j5 obtain devid where r: "readDeviceId s5 = Some (devid, s6)"
      and m: "m = (devid = jedecID s6)"
      by (auto split: bind_splits)
    from readDeviceId_shape [OF r] obtain pre r hi lo where id:
      "if atmega32u4 s5 then polling pre else pre = []" "devid = jedec_word hi lo"
      "trace s6 = trace s5 @ wire (pre @ [[(SPIFLASH_IDREAD, r), (0, hi), (0, lo)]])"
      "same_setup s5 s6" by blast
    have "id_frames (atmega32u4 s) hi lo (pre @ [[(SPIFLASH_IDREAD, r), (0, hi), (0, lo)]])"
      using id(1) j5 unfolding id_frames_def by auto
    moreover have "m = (jedec_word hi lo = jedecID s)"
      using m id(2,4) j5 by (simp add: same_setup_def)
    ultimately have "\<exists>fi. trace s6 = trace s5 @ wire fi \<and> same_setup s5 s6
          \<and> (\<exists>hi lo. id_frames (atmega32u4 s) hi lo fi
                     \<and> m = (jedec_word hi lo = jedecID s))"
      using id(3,4) by blast
    then show ?thesis using False by (simp only: if_False)
  qed
  then obtain fi where fi: "trace s6 = trace s5 @ wire fi" "same_setup s5 s6"
    "if jedecID s = 0 then fi = [] \<and> m
     else \<exists>hi lo. id_frames (atmega32u4 s) hi lo fi \<and> m = (jedec_word hi lo = jedecID s)"
    by blast
  have "ok = m \<and> (\<exists>fu. trace s' = trace s6 @ wire fu \<and> same_setup s6 s'
          \<and> (if ok then \<exists>y. transaction SPIFLASH_STATUSWRITE True [(0, y)] fu else fu = []))"
  proof (cases m)
    case False
    with fin have "ok = False" "s' = s6" by simp_all
    then show ?thesis using False by (auto intro: exI [of _ "[]"])
  next
    case True
    with fin obtain s7 where c: "command SPIFLASH_STATUSWRITE True s6 = Some s7"
      and s': "s' = unselect (snd (SPI_transfer 0 s7))" and ok: "ok"
      by (auto split: bind_splits)
    from command_then [OF c sends_transfer [of s7 0]] obtain fu where
      "transaction SPIFLASH_STATUSWRITE True [(0, replies s7 (xfers s7))] fu"
      "trace s' = trace s6 @ wire fu" "same_setup s6 s'" unfolding s' by blast
    then have "\<exists>fu. trace s' = trace s6 @ wire fu \<and> same_setup s6 s'
          \<and> (\<exists>y. transaction SPIFLASH_STATUSWRITE True [(0, y)] fu)" by blast
    then show ?thesis using True ok by (simp only: if_True simp_thms)
  qed
  then obtain fu where fu: "ok = m" "trace s' = trace s6 @ wire fu" "same_setup s6 s'"
    "if ok then \<exists>y. transaction SPIFLASH_STATUSWRITE True [(0, y)] fu else fu = []"
    by blast
  have "trace s' = trace s @ Unselect # wire (fw @ fi @ fu)"
    by (simp add: fu(2) fi(1) fw(2) s4(1) wire_append)
  moreover have "same_setup s s'"
    using s4(2) fw(3) fi(2) fu(3) by (simp add: same_setup_def)
  ultimately show ?thesis using fw(1) fi(3) fu(1,4) by blast
qed

section \<open>The two disciplines, transaction by transaction\<close>

lemma polling_all_status: "polling ps \<Longrightarrow> p \<in> set ps \<Longrightarrow> is_status_read p"
  by (induction ps rule: polling.induct) auto

lemma status_read_not_enable: "is_status_read p \<Longrightarrow> \<not> is_write_enable p"
  by (auto simp: is_status_read_def is_write_enable_def)

lemma write_enabled_polling:
  "polling ps \<Longrightarrow> write_enabled a (ps @ rest) = write_enabled a rest"
  by (induction ps rule: polling.induct) (auto simp: status_read_not_enable)

lemma busy_checked_polling:
  "polling ps \<Longrightarrow> busy_checked ok (ps @ rest) = busy_checked True rest"
  by (induction ps arbitrary: ok rule: polling.induct) auto

lemma command_frame_kind:
  "is_write_enable ((cmd, r) # f) \<longleftrightarrow> cmd = SPIFLASH_WRITEENABLE \<and> f = []"
  "is_status_read ((cmd, r) # f) \<longleftrightarrow> cmd = SPIFLASH_STATUSREAD \<and> map fst f = [0]"
  "is_mutating ((cmd, r) # f) \<longleftrightarrow> cmd \<in> set mutating_opcodes"
  by (auto simp: is_write_enable_def is_status_read_def is_mutating_def opcode_def)

lemma write_enabled_transaction:
  assumes "transaction cmd w f fs"
    and "cmd \<noteq> SPIFLASH_WRITEENABLE" and "cmd \<noteq> SPIFLASH_STATUSREAD"
    and "cmd \<in> set mutating_opcodes \<longrightarrow> w"
  shows "write_enabled a (fs @ rest) = write_enabled False rest"
proof -
  from assms(1) obtain pre r where fs: "fs = pre @ [(cmd, r) # f]" and pre: "preamble w pre"
    by (auto simp: transaction_def)
  show ?thesis
  proof (cases w)
    case True
    with pre obtain ps r' qs where p: "pre = ps @ [(SPIFLASH_WRITEENABLE, r')] # qs"
      "polling ps" "polling qs" by (auto simp: preamble_def)
    have "write_enabled a (fs @ rest)
        = write_enabled a ([(SPIFLASH_WRITEENABLE, r')] # (qs @ ((cmd, r) # f) # rest))"
      unfolding fs p(1) using write_enabled_polling [OF p(2)] by simp
    also have "\<dots> = write_enabled True (qs @ ((cmd, r) # f) # rest)"
      by (simp add: command_frame_kind)
    also have "\<dots> = write_enabled True (((cmd, r) # f) # rest)"
      by (rule write_enabled_polling [OF p(3)])
    also have "\<dots> = write_enabled False rest"
      using assms(2,3) by (simp add: command_frame_kind)
    finally show ?thesis .
  next
    case False
    with pre have p: "polling pre" by (simp add: preamble_def)
    have "write_enabled a (fs @ rest) = write_enabled a (((cmd, r) # f) # rest)"
      unfolding fs using write_enabled_polling [OF p] by simp
    also have "\<dots> = write_enabled False rest"
      using assms(2,3,4) False by (simp add: command_frame_kind)
    finally show ?thesis .
  qed
qed

lemma busy_checked_transaction:
  assumes "transaction cmd w f fs" and "cmd \<noteq> SPIFLASH_STATUSREAD"
  shows "busy_checked ok (fs @ rest) = busy_checked True rest"
proof -
  from assms(1) obtain pre r where fs: "fs = pre @ [(cmd, r) # f]" and pre: "preamble w pre"
    by (auto simp: transaction_def)
  show ?thesis
  proof (cases w)
    case True
    with pre obtain ps r' qs where p: "pre = ps @ [(SPIFLASH_WRITEENABLE, r')] # qs"
      "polling ps" "polling qs" by (auto simp: preamble_def)
    have "busy_checked ok (fs @ rest)
        = busy_checked True ([(SPIFLASH_WRITEENABLE, r')] # (qs @ ((cmd, r) # f) # rest))"
      unfolding fs p(1) using busy_checked_polling [OF p(2)] by simp
    also have "\<dots> = busy_checked True (qs @ ((cmd, r) # f) # rest)"
      by (simp add: command_frame_kind opcode_defs)
    also have "\<dots> = busy_checked True (((cmd, r) # f) # rest)"
      by (rule busy_checked_polling [OF p(3)])
    also have "\<dots> = busy_checked True rest"
      using assms(2) by (simp add: command_frame_kind)
    finally show ?thesis .
  next
    case False
    with pre have p: "polling pre" by (simp add: preamble_def)
    have "busy_checked ok (fs @ rest) = busy_checked True (((cmd, r) # f) # rest)"
      unfolding fs using busy_checked_polling [OF p] by simp
    also have "\<dots> = busy_checked True rest"
      using assms(2) by (simp add: command_frame_kind)
    finally show ?thesis .
  qed
qed

lemma orderly_Nil: "orderly []"
  by (simp add: orderly_def)

lemma orderly_transaction:
  assumes "transaction cmd w f fs"
    and "cmd \<noteq> SPIFLASH_WRITEENABLE" and "cmd \<noteq> SPIFLASH_STATUSREAD"
    and "cmd \<in> set mutating_opcodes \<longrightarrow> w"
    and "orderly rest"
  shows "orderly (fs @ rest)"
  using assms(5) write_enabled_transaction [OF assms(1-4)]
    busy_checked_transaction [OF assms(1,3)]
  by (simp add: orderly_def)

lemma orderly_transaction1:
  assumes "transaction cmd w f fs"
    and "cmd \<noteq> SPIFLASH_WRITEENABLE" and "cmd \<noteq> SPIFLASH_STATUSREAD"
    and "cmd \<in> set mutating_opcodes \<longrightarrow> w"
  shows "orderly fs"
  using orderly_transaction [OF assms orderly_Nil] by simp

lemma write_script_orderly:
  "write_script buf addr len maxBytes offset fs \<Longrightarrow> orderly fs"
proof (induction rule: write_script.induct)
  case (finished len addr maxBytes offset)
  show ?case by (rule orderly_Nil)
next
  case (burst len n maxBytes f fs addr offset rest)
  show ?case
    by (rule orderly_transaction [OF burst(3) _ _ _ burst(6)]) (simp_all add: opcode_defs)
qed

lemma id_frames_follow:
  assumes "id_frames leonardo hi lo fi" and "orderly fu"
  shows "write_enabled a (fi @ fu)" and "leonardo \<or> ok \<Longrightarrow> busy_checked ok (fi @ fu)"
proof -
  from assms(1) obtain pre r where fi: "fi = pre @ [[(SPIFLASH_IDREAD, r), (0, hi), (0, lo)]]"
    and pre: "if leonardo then polling pre else pre = []"
    by (auto simp: id_frames_def)
  let ?idf = "[(SPIFLASH_IDREAD, r), (0, hi), (0, lo)]"
  have kinds: "\<not> is_write_enable ?idf" "\<not> is_status_read ?idf" "\<not> is_mutating ?idf"
    by (simp_all add: command_frame_kind opcode_defs mutating_opcodes_def)
  have we: "write_enabled b (?idf # fu)" for b
    using assms(2) kinds by (simp add: orderly_def)
  have bc: "busy_checked True (?idf # fu)"
    using assms(2) kinds by (simp add: orderly_def)
  have "write_enabled a (fi @ fu) = write_enabled a (?idf # fu)"
  proof (cases leonardo)
    case True
    with pre have "polling pre" by simp
    from write_enabled_polling [OF this, of a "?idf # fu"] show ?thesis
      unfolding fi by simp
  next
    case False
    with pre show ?thesis unfolding fi by simp
  qed
  then show "write_enabled a (fi @ fu)" using we [of a] by (simp only:)
  show "busy_checked ok (fi @ fu)" if "leonardo \<or> ok"
  proof (cases leonardo)
    case True
    with pre have "polling pre" by simp
    from busy_checked_polling [OF this, of ok "?idf # fu"]
    have "busy_checked ok (fi @ fu) = busy_checked True (?idf # fu)"
      unfolding fi by simp
    then show ?thesis using bc by (simp only:)
  next
    case False
    with pre that have "busy_checked ok (fi @ fu) = busy_checked True (?idf # fu)"
      unfolding fi by simp
    then show ?thesis using bc by (simp only:)
  qed
qed

lemma run_shape:
  assumes "run c s = Some s'"
  shows "\<exists>fs. trace s' = trace s @ (if c = Initialize then [Unselect] else []) @ wire fs
           \<and> (\<forall>a. write_enabled a fs)
           \<and> ((c = ReadDeviceId \<longrightarrow> atmega32u4 s) \<longrightarrow> (\<forall>ok. busy_checked ok fs))"
proof -
  have fin: ?thesis if "trace s' = trace s @ wire fs" "orderly fs" "c \<noteq> Initialize" for fs
    using that by (auto simp: orderly_def)
  show ?thesis
  proof (cases c)
    case Initialize
    with assms obtain ok where "initialize s = Some (ok, s')" by auto
    from initialize_shape [OF this] obtain fw fi fu where
      fw: "transaction SPIFLASH_WAKE False [] fw"
      and tr: "trace s' = trace s @ Unselect # wire (fw @ fi @ fu)"
      and fi: "if jedecID s = 0 then fi = [] \<and> ok
               else \<exists>hi lo. id_frames (atmega32u4 s) hi lo fi
                      \<and> ok = (jedec_word hi lo = jedecID s)"
      and fu: "if ok then \<exists>y. transaction SPIFLASH_STATUSWRITE True [(0, y)] fu else fu = []"
      by blast
    have ofu: "orderly fu"
    proof (cases ok)
      case True
      with fu obtain y where "transaction SPIFLASH_STATUSWRITE True [(0, y)] fu" by auto
      then show ?thesis by (rule orderly_transaction1) (simp_all add: opcode_defs)
    next
      case False
      with fu show ?thesis by (simp add: orderly_Nil)
    qed
    have mid: "write_enabled False (fi @ fu) \<and> busy_checked True (fi @ fu)"
    proof (cases "jedecID s = 0")
      case True
      with fi ofu show ?thesis by (simp add: orderly_def)
    next
      case False
      with fi obtain hi lo where "id_frames (atmega32u4 s) hi lo fi" by auto
      from id_frames_follow [OF this ofu] show ?thesis by simp
    qed
    have "write_enabled a (fw @ fi @ fu)" for a
      using write_enabled_transaction [OF fw, of a "fi @ fu"] mid
      by (simp add: opcode_defs mutating_opcodes_def)
    moreover have "busy_checked b (fw @ fi @ fu)" for b
      using busy_checked_transaction [OF fw, of b "fi @ fu"] mid
      by (simp add: opcode_defs)
    ultimately show ?thesis using tr Initialize by auto
  next
    case ReadDeviceId
    with assms obtain devid where "readDeviceId s = Some (devid, s')" by auto
    from readDeviceId_shape [OF this] obtain pre r hi lo where
      pre: "if atmega32u4 s then polling pre else pre = []"
      and tr: "trace s' = trace s @ wire (pre @ [[(SPIFLASH_IDREAD, r), (0, hi), (0, lo)]])"
      by blast
    let ?fs = "pre @ [[(SPIFLASH_IDREAD, r), (0, hi), (0, lo)]]"
    have idf: "id_frames (atmega32u4 s) hi lo ?fs"
      using pre by (auto simp: id_frames_def)
    have "write_enabled a ?fs" for a
      using id_frames_follow(1) [OF idf orderly_Nil, of a] by simp
    moreover have "atmega32u4 s \<Longrightarrow> busy_checked b ?fs" for b
      using id_frames_follow(2) [OF idf orderly_Nil, of b] by simp
    ultimately show ?thesis using tr ReadDeviceId by auto
  next
    case ReadUniqueId
    with assms have "readUniqueId s = Some s'" by simp
    from readUniqueId_shape [OF this] obtain fs f where
      "transaction SPIFLASH_MACREAD False f fs" "trace s' = trace s @ wire fs" by blast
    then show ?thesis using ReadUniqueId
      by (intro fin [of fs] orderly_transaction1 [of SPIFLASH_MACREAD False f])
         (simp_all add: opcode_defs mutating_opcodes_def)
  next
    case (ReadByte addr)
    with assms obtain r where "readByte addr s = Some (r, s')" by auto
    from readByte_shape [OF this] obtain fs f where
      "transaction SPIFLASH_ARRAYREADLOWFREQ False (f @ [(0, r)]) fs"
      "trace s' = trace s @ wire fs" by blast
    then show ?thesis using ReadByte
      by (intro fin [of fs] orderly_transaction1 [of SPIFLASH_ARRAYREADLOWFREQ False "f @ [(0, r)]"])
         (simp_all add: opcode_defs mutating_opcodes_def)
  next
    case (ReadBytes addr buf len)
    with assms obtain buf' where "readBytes addr buf len s = Some (buf', s')" by auto
    from readBytes_shape [OF this] obtain fs f where
      "transaction SPIFLASH_ARRAYREAD False f fs" "trace s' = trace s @ wire fs" by blast
    then show ?thesis using ReadBytes
      by (intro fin [of fs] orderly_transaction1 [of SPIFLASH_ARRAYREAD False f])
         (simp_all add: opcode_defs mutating_opcodes_def)
  next
    case ReadStatus
    let ?p = "[(SPIFLASH_STATUSREAD, replies s (xfers s)), (0, replies s (Suc (xfers s)))]"
    from assms ReadStatus have "trace s' = trace s @ wire [?p]"
      by (auto simp: readStatus_trace wire_Cons)
    moreover have "orderly [?p]"
      by (simp add: orderly_def is_status_read_def is_write_enable_def opcode_defs)
    ultimately show ?thesis using ReadStatus by (intro fin [of "[?p]"]) simp_all
  next
    case Busy
    let ?p = "[(SPIFLASH_STATUSREAD, replies s (xfers s)), (0, replies s (Suc (xfers s)))]"
    from assms Busy have "trace s' = trace s @ wire [?p]"
      by (auto simp: busy_trace wire_Cons)
    moreover have "orderly [?p]"
      by (simp add: orderly_def is_status_read_def is_write_enable_def opcode_defs)
    ultimately show ?thesis using Busy by (intro fin [of "[?p]"]) simp_all
  next
    case (WriteByte addr byt)
    with assms have "writeByte addr byt s = Some s'" by simp
    from writeByte_shape [OF this] obtain fs f where
      "transaction SPIFLASH_BYTEPAGEPROGRAM True f fs" "trace s' = trace s @ wire fs" by blast
    then show ?thesis using WriteByte
      by (intro fin [of fs] orderly_transaction1 [of SPIFLASH_BYTEPAGEPROGRAM True f])
         (simp_all add: opcode_defs mutating_opcodes_def)
  next
    case (WriteBytes addr buf len)
    with assms have "writeBytes addr buf len s = Some s'" by simp
    from writeBytes_shape [OF this] obtain fs where
      "write_script buf addr len (first_maxBytes addr) 0 fs" "trace s' = trace s @ wire fs"
      by blast
    then show ?thesis using WriteBytes
      by (intro fin [of fs] write_script_orderly [of buf addr len "first_maxBytes addr" 0])
         simp_all
  next
    case ChipErase
    with assms have "chipErase s = Some s'" by simp
    from chipErase_shape [OF this] obtain fs where
      "transaction SPIFLASH_CHIPERASE True [] fs" "trace s' = trace s @ wire fs" by blast
    then show ?thesis using ChipErase
      by (intro fin [of fs] orderly_transaction1 [of SPIFLASH_CHIPERASE True "[]"])
         (simp_all add: opcode_defs mutating_opcodes_def)
  next
    case (BlockErase4K addr)
    with assms have "blockErase4K addr s = Some s'" by simp
    from blockErase4K_shape [OF this] obtain fs f where
      "transaction SPIFLASH_BLOCKERASE_4K True f fs" "trace s' = trace s @ wire fs" by blast
    then show ?thesis using BlockErase4K
      by (intro fin [of fs] orderly_transaction1 [of SPIFLASH_BLOCKERASE_4K True f])
         (simp_all add: opcode_defs mutating_opcodes_def)
  next
    case (BlockErase32K addr)
    with assms have "blockErase32K addr s = Some s'" by simp
    from blockErase32K_shape [OF this] obtain fs f where
      "transaction SPIFLASH_BLOCKERASE_32K True f fs" "trace s' = trace s @ wire fs" by blast
    then show ?thesis using BlockErase32K
      by (intro fin [of fs] orderly_transaction1 [of SPIFLASH_BLOCKERASE_32K True f])
         (simp_all add: opcode_defs mutating_opcodes_def)
  next
    case Sleep
    with assms have "sleep s = Some s'" by simp
    from sleep_shape [OF this] obtain fs where
      "transaction SPIFLASH_SLEEP False [] fs" "trace s' = trace s @ wire fs" by blast
    then show ?thesis using Sleep
      by (intro fin [of fs] orderly_transaction1 [of SPIFLASH_SLEEP False "[]"])
         (simp_all add: opcode_defs mutating_opcodes_def)
  next
    case Wakeup
    with assms have "wakeup s = Some s'" by simp
    from wakeup_shape [OF this] obtain fs where
      "transaction SPIFLASH_WAKE False [] fs" "trace s' = trace s @ wire fs" by blast
    then show ?thesis using Wakeup
      by (intro fin [of fs] orderly_transaction1 [of SPIFLASH_WAKE False "[]"])
         (simp_all add: opcode_defs mutating_opcodes_def)
  qed
qed

section \<open>The two disciplines, said of one transaction\<close>

lemma after_write_enable_Cons: "after_write_enable pre \<Longrightarrow> after_write_enable (g # pre)"
  unfolding after_write_enable_def by (metis append_Cons)

lemma after_ready_poll_Cons: "after_ready_poll pre \<Longrightarrow> after_ready_poll (g # pre)"
  unfolding after_ready_poll_def by (metis append_Cons)

lemma mutating_kind: "is_mutating f \<Longrightarrow> \<not> is_write_enable f \<and> \<not> is_status_read f"
  by (cases f)
     (auto simp: is_mutating_def is_write_enable_def is_status_read_def opcode_def
        mutating_opcodes_def opcode_defs)

lemma write_enabled_explicit:
  assumes "write_enabled a (pre @ f # post)" and "is_mutating f"
  shows "(a \<and> list_all is_status_read pre) \<or> after_write_enable pre"
  using assms(1)
proof (induction pre arbitrary: a)
  case Nil
  then show ?case using assms(2) mutating_kind [OF assms(2)] by simp
next
  case (Cons g pre)
  show ?case
  proof (cases "is_write_enable g")
    case True
    with Cons.prems have "write_enabled True (pre @ f # post)" by simp
    from Cons.IH [OF this] show ?thesis
    proof
      assume "True \<and> list_all is_status_read pre"
      then have "g # pre = [] @ g # pre \<and> is_write_enable g \<and> list_all is_status_read pre"
        using True by simp
      then have "after_write_enable (g # pre)"
        unfolding after_write_enable_def by blast
      then show ?thesis ..
    next
      assume "after_write_enable pre"
      then show ?thesis by (simp add: after_write_enable_Cons)
    qed
  next
    case False
    show ?thesis
    proof (cases "is_status_read g")
      case True
      with False Cons.prems have "write_enabled a (pre @ f # post)" by simp
      from Cons.IH [OF this] show ?thesis
        using True by (auto simp: after_write_enable_Cons)
    next
      case nsr: False
      with False Cons.prems have "write_enabled False (pre @ f # post)" by simp
      from Cons.IH [OF this] show ?thesis by (simp add: after_write_enable_Cons)
    qed
  qed
qed

lemma busy_checked_explicit:
  assumes "busy_checked ready (pre @ f # post)" and "\<not> is_status_read f"
  shows "(ready \<and> list_all (\<lambda>g. \<not> is_status_read g) pre) \<or> after_ready_poll pre"
  using assms(1)
proof (induction pre arbitrary: ready)
  case Nil
  then show ?case using assms(2) by simp
next
  case (Cons g pre)
  show ?case
  proof (cases "is_status_read g")
    case True
    with Cons.prems have "busy_checked (status_of g AND 1 = 0) (pre @ f # post)" by simp
    from Cons.IH [OF this] show ?thesis
    proof
      assume "status_of g AND 1 = 0 \<and> list_all (\<lambda>g. \<not> is_status_read g) pre"
      then have "g # pre = [] @ g # pre \<and> is_status_read g \<and> status_of g AND 1 = 0
          \<and> list_all (\<lambda>g. \<not> is_status_read g) pre"
        using True by simp
      then have "after_ready_poll (g # pre)"
        unfolding after_ready_poll_def by blast
      then show ?thesis ..
    next
      assume "after_ready_poll pre"
      then show ?thesis by (simp add: after_ready_poll_Cons)
    qed
  next
    case False
    with Cons.prems have "ready" "busy_checked ready (pre @ f # post)" by auto
    from Cons.IH [OF this(2)] show ?thesis
      using False \<open>ready\<close> by (auto simp: after_ready_poll_Cons)
  qed
qed

section \<open>Running the driver on a bench\<close>

lemma wait_ready: "\<not> fst (busy s) \<Longrightarrow> wait_while_busy s = Some (snd (busy s))"
  by (subst wait_while_busy.simps) (simp add: split_beta)

lemma wait_busy: "fst (busy s) \<Longrightarrow> wait_while_busy s = wait_while_busy (snd (busy s))"
  by (subst wait_while_busy.simps) (simp add: split_beta)

lemma busy_proj:
  "jedecID (snd (busy s)) = jedecID s" "atmega32u4 (snd (busy s)) = atmega32u4 s"
  "replies (snd (busy s)) = replies s"
  using busy_setup [of s] by (simp_all add: same_setup_def)

lemma send_address_proj:
  "jedecID (send_address a s) = jedecID s" "atmega32u4 (send_address a s) = atmega32u4 s"
  "replies (send_address a s) = replies s" "xfers (send_address a s) = xfers s + 3"
  "trace (send_address a s) = trace s @
     [Xfer (ucast (signed_drop_bit 16 a)) (replies s (xfers s)),
      Xfer (ucast (signed_drop_bit 8 a)) (replies s (Suc (xfers s))),
      Xfer (ucast a) (replies s (Suc (Suc (xfers s))))]"
  by (simp_all add: send_address_def Let_def)

lemmas run_simps =
  wait_ready wait_busy busy_fst busy_trace busy_xfers busy_proj send_address_proj
  command.simps writeBytes_loop.simps writeBytes_send.simps readBytes_loop.simps
  readUniqueId_loop.simps
  initialize_def readDeviceId_def readUniqueId_def readByte_def readBytes_def writeByte_def
  writeBytes_def chipErase_def blockErase4K_def blockErase32K_def sleep_def wakeup_def
  bench_def idle_flash_def SPIFlash_def no_reply_def Let_def split_beta
  frame_events_def exch_def frames_def opcode_defs

section \<open>Address bytes and the first-burst limit\<close>

lemma ucast_sdrop16: "(ucast (signed_drop_bit 16 (a::long)) :: byte) = ucast (drop_bit 16 a)"
  by (rule bit_eqI) (auto simp: bit_simps)

lemma ucast_sdrop8: "(ucast (signed_drop_bit 8 (a::long)) :: byte) = ucast (drop_bit 8 a)"
  by (rule bit_eqI) (auto simp: bit_simps)

lemma unat_byte16: "unat (ucast (signed_drop_bit 16 (a::long)) :: byte) = unat a div 65536 mod 256"
  unfolding ucast_sdrop16
  by (simp add: unsigned_ucast_eq unat_drop_bit_eq drop_bit_eq_div take_bit_eq_mod unat_div)

lemma unat_byte8: "unat (ucast (signed_drop_bit 8 (a::long)) :: byte) = unat a div 256 mod 256"
  unfolding ucast_sdrop8
  by (simp add: unsigned_ucast_eq unat_drop_bit_eq drop_bit_eq_div take_bit_eq_mod unat_div)

lemma unat_byte0: "unat (ucast (a::long) :: byte) = unat a mod 256"
  by (simp add: unsigned_ucast_eq take_bit_eq_mod)

lemma c7form: "[ucast (drop_bit 16 a AND 0xFF), ucast (drop_bit 8 a AND 0xFF), ucast (a AND 0xFF)]
   = addr_bytes a"
proof -
  have m: "(ucast (w AND 0xFF) :: byte) = ucast w" for w :: long
  proof -
    have "w AND 0xFF = take_bit 8 w" by (simp add: take_bit_eq_mask mask_eq_exp_minus_1)
    then show ?thesis by (simp add: bit_eq_iff bit_simps)
  qed
  show ?thesis
    unfolding addr_bytes_def ucast_sdrop16 ucast_sdrop8 by (simp only: m)
qed

lemma arith24: "65536 * (x div 65536 mod 256) + 256 * (x div 256 mod 256) + x mod 256 = x mod 16777216" for x :: nat
proof -
  have "x mod (256 * 65536) = 256 * (x div 256 mod 65536) + x mod 256"
    by (rule mod_mult2_eq)
  moreover have "x div 256 mod (256 * 256) = 256 * (x div 256 div 256 mod 256) + x div 256 mod 256"
    by (rule mod_mult2_eq)
  moreover have "x div 256 div 256 = x div 65536"
    by (simp add: div_mult2_eq [symmetric])
  ultimately show ?thesis by simp
qed

lemma be24_three: "be24 [x, y, z] = 65536 * unat x + 256 * unat y + unat z"
  by (simp add: be24_def)

lemma be24_addr_bytes: "be24 (addr_bytes a) = unat a mod 16777216"
  unfolding addr_bytes_def be24_three
  by (simp only: unat_byte16 unat_byte8) (simp only: unat_byte0 arith24)

lemma polling_no_program: "polling ps \<Longrightarrow> filter is_program ps = []"
  by (induction ps rule: polling.induct)
     (auto simp: is_program_def is_status_read_def opcode_def opcode_defs split: list.splits)

lemma program_transaction:
  assumes "transaction SPIFLASH_BYTEPAGEPROGRAM True f fs"
  shows "\<exists>r. filter is_program fs = [(SPIFLASH_BYTEPAGEPROGRAM, r) # f]"
proof -
  from assms obtain ps r' qs r where fs:
    "fs = (ps @ [(SPIFLASH_WRITEENABLE, r')] # qs) @ [(SPIFLASH_BYTEPAGEPROGRAM, r) # f]"
    and p: "polling ps" "polling qs"
    by (auto simp: transaction_def preamble_def)
  have "filter is_program fs = [(SPIFLASH_BYTEPAGEPROGRAM, r) # f]"
    unfolding fs using polling_no_program [OF p(1)] polling_no_program [OF p(2)]
    by (simp add: is_program_def opcode_def opcode_defs)
  then show ?thesis ..
qed

lemma burst_of_command:
  "map fst f = addr_bytes a @ d \<Longrightarrow> burst_of ((c, r) # f) = (unat a mod 16777216, d)"
  by (simp add: burst_of_def be24_addr_bytes [symmetric]) (simp add: addr_bytes_def)

lemma contiguous_cong:
  "a mod 2 ^ 24 = a' mod 2 ^ 24 \<Longrightarrow> contiguous a bs = contiguous a' bs"
proof (induction bs arbitrary: a a')
  case Nil
  show ?case by simp
next
  case (Cons b bs)
  have "(a + int (length (snd b))) mod 2 ^ 24 = (a' + int (length (snd b))) mod 2 ^ 24"
    using Cons.prems by (metis mod_add_cong)
  from Cons.IH [OF this] show ?case using Cons.prems by simp
qed

lemma sent_data_no_wrap:
  fixes offset n :: word16
  assumes "unat offset + unat n < 65536"
  shows "map (\<lambda>j. buf (unat (offset + of_nat j))) [0..<unat n]
       = map buf [unat offset..<unat offset + unat n]"
proof -
  have "unat (offset + of_nat j) = unat offset + j" if "j < unat n" for j
    using that assms by (simp add: unat_word_ariths unat_of_nat)
  then have "map (\<lambda>j. buf (unat (offset + of_nat j))) [0..<unat n]
       = map (\<lambda>j. buf (unat offset + j)) [0..<unat n]" by simp
  also have "\<dots> = map buf (map (\<lambda>j. unat offset + j) [0..<unat n])" by simp
  also have "map (\<lambda>j. unat offset + j) [0..<unat n] = [unat offset..<unat offset + unat n]"
    using map_add_upt [of "unat offset" "unat n"] by (simp add: add.commute)
  finally show ?thesis .
qed

lemma sint_nonneg_unat:
  assumes "0 \<le> sint (addr::long)"
  shows "sint addr = int (unat addr)"
proof -
  have "sint addr < 2 ^ (LENGTH(32) - 1)" by (rule sint_lt)
  then have "sint addr < 2 ^ 32" by simp
  with assms have "take_bit LENGTH(32) (sint addr) = sint addr"
    by (simp add: take_bit_int_eq_self)
  then have "uint addr = sint addr" by (simp only: uint_sint [of addr])
  then show ?thesis by (simp only: uint_nat)
qed

lemma unat_first_maxBytes: "unat (first_maxBytes addr) = nat (256 - sint addr smod 256)"
proof -
  define r where "r = sint addr smod 256"
  have "r \<in> {- \<bar>256\<bar> + 1..\<bar>256\<bar> - 1}" unfolding r_def by (rule smod_int_range) simp
  then have r: "- 255 \<le> r" "r \<le> 255" by simp_all
  have w: "(256 - word_of_int r :: long) = word_of_int (256 - r)" by simp
  have "uint (256 - word_of_int r :: long) = (256 - r) mod 2 ^ LENGTH(32)"
    unfolding w by (rule uint_word_of_int)
  also have "\<dots> = (256 - r) mod 2 ^ 32" by simp
  also have "\<dots> = 256 - r" using r by (intro mod_pos_pos_trivial) simp_all
  finally have "unat (256 - word_of_int r :: long) = nat (256 - r)"
    by (simp only: unat_eq_nat_uint)
  moreover have "unat (first_maxBytes addr) = unat (256 - word_of_int r :: long) mod 2 ^ 16"
    unfolding first_maxBytes_def r_def by (simp only: unsigned_ucast_eq take_bit_eq_mod) simp
  moreover have "nat (256 - r) mod 2 ^ 16 = nat (256 - r)"
    using r by (intro mod_less) simp
  ultimately show ?thesis by (simp only: r_def)
qed

lemma first_maxBytes_nonzero: "first_maxBytes addr \<noteq> 0"
proof -
  have "sint addr smod 256 \<in> {- \<bar>256\<bar> + 1..\<bar>256\<bar> - 1}" by (rule smod_int_range) simp
  then have "0 < unat (first_maxBytes addr)" by (simp add: unat_first_maxBytes)
  then show ?thesis by (auto simp: unat_gt_0)
qed

lemma first_maxBytes_nonneg:
  assumes "0 \<le> sint addr"
  shows "unat (first_maxBytes addr) = 256 - unat addr mod 256"
proof -
  have "sint addr smod 256 = sint addr mod 256"
    using assms by (simp add: smod_mod_positive)
  also have "\<dots> = int (unat addr mod 256)"
    by (simp add: sint_nonneg_unat [OF assms] zmod_int)
  finally show ?thesis by (simp add: unat_first_maxBytes)
qed

section \<open>The arithmetic of the page split\<close>

lemma page_remainder:
  fixes a mx :: nat
  assumes "(a + mx) mod 256 = 0" and "mx \<noteq> 0" and "mx \<le> 256"
  shows "a mod 256 + mx = 256"
proof -
  have "(a mod 256 + mx) mod 256 = 0" using assms(1) by (simp add: mod_add_left_eq)
  then have "256 dvd a mod 256 + mx" by (simp add: dvd_eq_mod_eq_0)
  then obtain k where k: "a mod 256 + mx = 256 * k" by (auto simp: dvd_def)
  have "a mod 256 < 256" by simp
  with assms(2,3) k have "0 < 256 * k" "256 * k < 512" by linarith+
  then have "k = 1" by simp
  with k show ?thesis by simp
qed

lemma unat_ucast_word16: "unat (ucast (n::word16) :: long) = unat n"
proof -
  have "unat n < 65536" using unsigned_less [of n, where 'a = nat] by simp
  then show ?thesis by (simp add: unsigned_ucast_eq take_bit_eq_mod)
qed

lemma write_script_split:
  assumes "write_script buf addr len mx off fs"
    and "len \<noteq> 0 \<longrightarrow> mx \<noteq> 0 \<and> unat mx \<le> 256 \<and> (unat addr + unat mx) mod 256 = 0"
    and "unat off + unat len < 65536"
  shows "split_ok buf (unat addr) (unat len) (unat mx) (unat off)
           (map burst_of (filter is_program fs))"
  using assms
proof (induction rule: write_script.induct)
  case (finished len addr maxBytes offset)
  then show ?case by (simp add: split_ok_def)
next
  case (burst len n maxBytes f fs addr offset rest)
  from burst.hyps(1) have len0: "len \<noteq> 0" by (simp add: word_gt_0)
  with burst.prems have mx: "maxBytes \<noteq> 0" "unat maxBytes \<le> 256"
    "(unat addr + unat maxBytes) mod 256 = 0" by simp_all
  have n_le_len: "unat n \<le> unat len"
    unfolding burst.hyps(2) by (auto simp: word_le_nat_alt)
  have n_le_mx: "unat n \<le> unat maxBytes"
    unfolding burst.hyps(2) by (auto simp: word_le_nat_alt)
  have n0: "0 < unat n"
    unfolding burst.hyps(2) using len0 mx(1) by (auto simp: unat_gt_0)
  have off_n: "unat offset + unat n < 65536" using burst.prems(2) n_le_len by simp
  have len': "unat (len - n) = unat len - unat n"
    using n_le_len by (simp add: unat_sub word_le_nat_alt)
  have off': "unat (offset + n) = unat offset + unat n"
    using off_n by (simp add: unat_word_ariths)
  have addr': "unat (addr + ucast n) mod 256 = (unat addr + unat n) mod 256"
  proof -
    have "unat (addr + ucast n) = (unat addr + unat n) mod 2 ^ 32"
      by (simp add: unat_word_ariths unat_ucast_word16)
    then show ?thesis by (simp add: mod_mod_cancel)
  qed
  have addr24: "int (unat (addr + ucast n)) mod 2 ^ 24
              = (int (unat addr) + int (unat n)) mod 2 ^ 24"
  proof -
    have "unat (addr + ucast n) = (unat addr + unat n) mod 2 ^ 32"
      by (simp add: unat_word_ariths unat_ucast_word16)
    then have "unat (addr + ucast n) mod 2 ^ 24 = (unat addr + unat n) mod 2 ^ 24"
      by (simp add: mod_mod_cancel)
    then have "int (unat (addr + ucast n) mod 2 ^ 24) = int ((unat addr + unat n) mod 2 ^ 24)"
      by (rule arg_cong)
    then show ?thesis by (simp add: zmod_int)
  qed
  have "len - n \<noteq> 0 \<longrightarrow>
      (256::word16) \<noteq> 0 \<and> unat (256::word16) \<le> 256
      \<and> (unat (addr + ucast n) + unat (256::word16)) mod 256 = 0"
  proof
    assume "len - n \<noteq> 0"
    then have "n \<noteq> len" by auto
    then have "n = maxBytes" unfolding burst.hyps(2) by (auto split: if_splits)
    then have "unat (addr + ucast n) mod 256 = 0" using addr' mx(3) by simp
    then show "(256::word16) \<noteq> 0 \<and> unat (256::word16) \<le> 256
      \<and> (unat (addr + ucast n) + unat (256::word16)) mod 256 = 0"
      by (simp add: mod_add_left_eq [symmetric])
  qed
  moreover have "unat (offset + n) + unat (len - n) < 65536"
    using burst.prems(2) n_le_len by (simp add: len' off')
  ultimately have IH: "split_ok buf (unat (addr + ucast n)) (unat (len - n)) (unat (256::word16))
      (unat (offset + n)) (map burst_of (filter is_program rest))"
    by (rule burst.IH)
  from program_transaction [OF burst.hyps(3)] obtain r where
    fl: "filter is_program fs = [(SPIFLASH_BYTEPAGEPROGRAM, r) # f]" ..
  let ?d = "map buf [unat offset..<unat offset + unat n]"
  have f: "map fst f = addr_bytes addr @ ?d"
    using burst.hyps(4) sent_data_no_wrap [OF off_n] by simp
  let ?b = "(unat addr mod 16777216, ?d)"
  let ?bs = "map burst_of (filter is_program rest)"
  have bs: "map burst_of (filter is_program (fs @ rest)) = ?b # ?bs"
    by (simp add: fl burst_of_command [OF f])
  have c: "contiguous (int (unat addr)) (?b # ?bs)"
  proof -
    have "contiguous (int (unat (addr + ucast n))) ?bs" using IH by (simp add: split_ok_def)
    then have "contiguous (int (unat addr) + int (unat n)) ?bs"
      using contiguous_cong [OF addr24] by simp
    then show ?thesis by (simp add: zmod_int)
  qed
  have w: "within_page ?b"
  proof -
    have "unat addr mod 256 + unat maxBytes = 256"
      using mx by (intro page_remainder) (simp_all add: unat_gt_0 [symmetric] unat_eq_zero)
    then have "unat addr mod 256 + unat n \<le> 256" using n_le_mx by simp
    moreover have "unat addr mod 16777216 mod 256 = unat addr mod 256"
      by (simp add: mod_mod_cancel)
    ultimately show ?thesis using n0 by (simp add: within_page_def)
  qed
  have d: "concat (map snd (?b # ?bs)) = map buf [unat offset..<unat offset + unat len]"
  proof -
    have "concat (map snd ?bs)
        = map buf [unat offset + unat n..<unat offset + unat n + (unat len - unat n)]"
      using IH by (simp add: split_ok_def len' off')
    moreover have "[unat offset..<unat offset + unat len]
        = [unat offset..<unat offset + unat n]
          @ [unat offset + unat n..<unat offset + unat n + (unat len - unat n)]"
      using n_le_len upt_add_eq_append [of "unat offset" "unat offset + unat n" "unat len - unat n"]
      by simp
    ultimately show ?thesis by simp
  qed
  have l: "length (snd ?b) \<le> unat maxBytes" "length (snd ?b) \<le> 256"
    using n_le_mx mx(2) by simp_all
  show ?case
    unfolding bs split_ok_def using c w d l IH by (simp add: split_ok_def)
qed

section \<open>Every operation returns on a responsive device\<close>

lemma responsive_same_setup: "same_setup s s' \<Longrightarrow> responsive s' = responsive s"
  by (simp add: responsive_def same_setup_def)

lemma wait_returns_at:
  "replies s (Suc (xfers s + 2 * k)) AND 1 = 0 \<Longrightarrow> \<exists>s'. wait_while_busy s = Some s'"
proof (induction k arbitrary: s)
  case 0
  then have "\<not> fst (busy s)" by (simp add: busy_fst)
  then show ?case by (simp add: wait_ready)
next
  case (Suc k)
  show ?case
  proof (cases "fst (busy s)")
    case False
    then show ?thesis by (simp add: wait_ready)
  next
    case True
    have "replies (snd (busy s)) (Suc (xfers (snd (busy s)) + 2 * k)) AND 1 = 0"
      using Suc.prems by (simp add: busy_xfers busy_proj)
    from Suc.IH [OF this] show ?thesis using True by (simp add: wait_busy)
  qed
qed

lemma wait_returns: "responsive s \<Longrightarrow> \<exists>s'. wait_while_busy s = Some s'"
  unfolding responsive_def using wait_returns_at by blast

lemma command_plain_returns:
  assumes "responsive s"
  shows "\<exists>s'. command cmd False s = Some s'"
proof -
  let ?s0 = "if atmega32u4 s then s\<lparr>DDRB := DDRB s OR 1, PORTB := PORTB s OR 1\<rparr> else s"
  have "responsive ?s0" using assms by (simp add: responsive_def)
  from wait_returns [OF this] obtain s2 where "wait_while_busy ?s0 = Some s2" ..
  then show ?thesis by (simp add: command.simps [of cmd False s] Let_def)
qed

lemma command_returns:
  assumes "responsive s"
  shows "\<exists>s'. command cmd isWrite s = Some s'"
proof (cases isWrite)
  case False
  with command_plain_returns [OF assms] show ?thesis by simp
next
  case True
  let ?s0 = "if atmega32u4 s then s\<lparr>DDRB := DDRB s OR 1, PORTB := PORTB s OR 1\<rparr> else s"
  have r0: "responsive ?s0" using assms by (simp add: responsive_def)
  from command_plain_returns [OF r0] obtain sw where
    we: "command SPIFLASH_WRITEENABLE False ?s0 = Some sw" ..
  from command_shape [OF we] have "same_setup ?s0 sw" by blast
  then have "responsive (unselect sw)"
    using r0 by (simp add: responsive_def same_setup_def)
  from wait_returns [OF this] obtain s2 where "wait_while_busy (unselect sw) = Some s2" ..
  then show ?thesis using True we by (simp add: command.simps [of cmd True s] Let_def)
qed

lemma command_responsive:
  "command cmd isWrite s = Some s' \<Longrightarrow> responsive s' = responsive s"
  using command_shape [of cmd isWrite s s'] responsive_same_setup by blast

lemma writeBytes_loop_returns:
  assumes "responsive s" and "maxBytes \<noteq> 0"
  shows "\<exists>s'. writeBytes_loop addr buf len maxBytes offset s = Some s'"
  using assms
proof (induction "unat len" arbitrary: len addr maxBytes offset s rule: less_induct)
  case less
  show ?case
  proof (cases "len > 0")
    case False
    then show ?thesis by (subst writeBytes_loop.simps) simp
  next
    case True
    define n where "n = (if len \<le> maxBytes then len else maxBytes)"
    from True have len0: "len \<noteq> 0" by (simp add: word_gt_0)
    have n0: "0 < unat n" unfolding n_def using len0 less.prems(2) by (auto simp: unat_gt_0)
    have nle: "unat n \<le> unat len" unfolding n_def by (auto simp: word_le_nat_alt)
    have dec: "unat (len - n) < unat len"
      using n0 nle by (simp add: unat_sub word_le_nat_alt)
    from command_returns [OF less.prems(1)] obtain s1 where
      c: "command SPIFLASH_BYTEPAGEPROGRAM True s = Some s1" ..
    let ?s4 = "unselect (writeBytes_send 0 n buf offset (send_address addr s1))"
    obtain f where "sends s1 f (send_address addr s1)" using send_address_sends by blast
    moreover obtain g where "sends (send_address addr s1) g
        (writeBytes_send 0 n buf offset (send_address addr s1))"
      using writeBytes_send_sends by blast
    ultimately have "same_setup s1 ?s4" by (simp add: sends_def same_setup_def)
    then have "responsive ?s4"
      using less.prems(1) command_responsive [OF c] responsive_same_setup by blast
    from less.hyps [OF dec this, of 256 "addr + ucast n" "offset + n"] obtain s' where
      "writeBytes_loop (addr + ucast n) buf (len - n) 256 (offset + n) ?s4 = Some s'" by auto
    then show ?thesis
      using True c by (subst writeBytes_loop.simps) (simp add: Let_def n_def)
  qed
qed

lemma writeBytes_returns: "responsive s \<Longrightarrow> \<exists>s'. writeBytes addr buf len s = Some s'"
  unfolding writeBytes_def by (rule writeBytes_loop_returns) (simp_all add: first_maxBytes_nonzero)

lemma readDeviceId_returns:
  assumes "responsive s \<or> \<not> atmega32u4 s"
  shows "\<exists>r. readDeviceId s = Some r"
proof (cases "atmega32u4 s")
  case True
  with assms have "responsive s" by simp
  from command_returns [OF this] obtain s1 where
    "command SPIFLASH_IDREAD False s = Some s1" ..
  then show ?thesis using True by (simp add: readDeviceId_def Let_def split_beta)
next
  case False
  then show ?thesis by (simp add: readDeviceId_def Let_def split_beta)
qed

lemma wakeup_returns: "responsive s \<Longrightarrow> \<exists>s'. wakeup s = Some s'"
  using command_returns [of s SPIFLASH_WAKE False] by (auto simp: wakeup_def)

lemma initialize_returns:
  assumes "responsive s"
  shows "\<exists>r. initialize s = Some r"
proof -
  let ?s1 = "s\<lparr>saved_SPCR := SPCR s\<rparr>"
  let ?s2 = "?s1\<lparr>saved_SPSR := SPSR ?s1\<rparr>"
  let ?s3 = "?s2\<lparr>pin_output := (pin_output ?s2)(slaveSelectPin ?s2 := True)\<rparr>"
  let ?s4 = "unselect ?s3"
  have r4: "responsive ?s4" using assms by (simp add: responsive_def)
  from wakeup_returns [OF r4] obtain s5 where w: "wakeup ?s4 = Some s5" ..
  from wakeup_shape [OF w] have "same_setup ?s4 s5" by blast
  then have r5: "responsive s5" using r4 responsive_same_setup by blast
  have "\<exists>m s6. (if jedecID s5 = 0 then Some (True, s5)
           else readDeviceId s5 \<bind> (\<lambda>(devid, s'). Some (devid = jedecID s', s')))
         = Some (m, s6) \<and> responsive s6"
  proof (cases "jedecID s5 = 0")
    case True
    then show ?thesis using r5 by auto
  next
    case False
    from readDeviceId_returns [of s5] r5 obtain devid s6 where
      r: "readDeviceId s5 = Some (devid, s6)" by auto
    from readDeviceId_shape [OF r] have "same_setup s5 s6" by blast
    then have "responsive s6" using r5 responsive_same_setup by blast
    then show ?thesis using False r by simp
  qed
  then obtain m s6 where p: "(if jedecID s5 = 0 then Some (True, s5)
           else readDeviceId s5 \<bind> (\<lambda>(devid, s'). Some (devid = jedecID s', s')))
         = Some (m, s6)" and r6: "responsive s6" by blast
  from command_returns [OF r6] obtain s7 where
    c: "command SPIFLASH_STATUSWRITE True s6 = Some s7" ..
  show ?thesis
    unfolding initialize_def Let_def w Option.bind.simps p
    using c by (cases m) auto
qed

lemma after_command:
  assumes "responsive s"
  shows "\<exists>r. command cmd w s \<bind> (\<lambda>s1. Some (g s1)) = Some r"
  using command_returns [OF assms, of cmd w] by auto

lemma run_returns:
  assumes "responsive s"
  shows "\<exists>s'. run c s = Some s'"
proof -
  have "\<exists>r. readUniqueId s = Some r" "\<exists>r. readByte a s = Some r"
    "\<exists>r. readBytes a buf len s = Some r" "\<exists>r. writeByte a byt s = Some r"
    "\<exists>r. chipErase s = Some r" "\<exists>r. blockErase4K a s = Some r"
    "\<exists>r. blockErase32K a s = Some r" "\<exists>r. sleep s = Some r" "\<exists>r. wakeup s = Some r"
    for a buf len byt
    unfolding readUniqueId_def readByte_def readBytes_def writeByte_def chipErase_def
      blockErase4K_def blockErase32K_def sleep_def wakeup_def Let_def split_beta
    by (rule after_command [OF assms])+
  moreover note initialize_returns [OF assms] writeBytes_returns [OF assms]
    readDeviceId_returns [of s] assms
  ultimately show ?thesis by (cases c) (simp_all, (blast | fastforce)+)
qed

section \<open>Framing, write-enable and busy discipline\<close>

lemma count_frame_events:
  "count_list (frame_events f) Select = 1" "count_list (frame_events f) Unselect = 1"
  by (induction f) (simp_all add: frame_events_def exch_def)

lemma count_wire:
  "count_list (wire fs) Select = length fs" "count_list (wire fs) Unselect = length fs"
  by (induction fs) (simp_all add: wire_Cons count_frame_events)

lemma run_emitted:
  assumes "run c s = Some s'"
  shows "\<exists>fs. emitted s s' = (if c = Initialize then [Unselect] else []) @ wire fs
           \<and> frames (emitted s s') = fs
           \<and> write_enabled False fs
           \<and> ((c = ReadDeviceId \<longrightarrow> atmega32u4 s) \<longrightarrow> busy_checked False fs)"
proof -
  from run_shape [OF assms] obtain fs where fs:
    "trace s' = trace s @ (if c = Initialize then [Unselect] else []) @ wire fs"
    "\<forall>a. write_enabled a fs"
    "(c = ReadDeviceId \<longrightarrow> atmega32u4 s) \<longrightarrow> (\<forall>ok. busy_checked ok fs)" by blast
  from fs(1) have e: "emitted s s' = (if c = Initialize then [Unselect] else []) @ wire fs"
    by (rule emitted_append)
  have "frames (emitted s s') = fs" unfolding e by simp
  with e fs(2,3) show ?thesis by blast
qed

text \<open>
  Claim C4, as amended. In the trace of every public operation other than
  \<open>initialize\<close> the number of select calls equals the number of unselect calls.
  \<open>initialize\<close> starts with an unselect of its own, to drive the chip-select line
  high, so its trace holds exactly one unselect more than selects. Both hold for every
  device and for both builds, whenever the operation returns.
\<close>

theorem framing_balance:
  assumes "run c s = Some s'"
  shows "unselect_count s s' = select_count s s' + (if c = Initialize then 1 else 0)"
proof -
  from run_emitted [OF assms] obtain fs where
    "emitted s s' = (if c = Initialize then [Unselect] else []) @ wire fs" by blast
  then show ?thesis by (simp add: select_count_def unselect_count_def count_wire)
qed

lemma responsive_idle: "responsive idle_flash" "responsive leonardo_flash"
  by (simp_all add: responsive_def idle_flash_def leonardo_flash_def SPIFlash_def bench_def
        no_reply_def)

text \<open>
  \<open>writeByte\<close> on the idle bench: four selects, four unselects;
  \<open>initialize\<close> there: one unselect more.
\<close>

theorem framing_balance_witness:
  "run (WriteByte 0x012345 0x5A) idle_flash \<noteq> None
   \<and> select_count idle_flash (the (run (WriteByte 0x012345 0x5A) idle_flash)) = 4
   \<and> unselect_count idle_flash (the (run (WriteByte 0x012345 0x5A) idle_flash)) = 4
   \<and> run Initialize idle_flash \<noteq> None
   \<and> unselect_count idle_flash (the (run Initialize idle_flash))
       = select_count idle_flash (the (run Initialize idle_flash)) + 1"
proof -
  have w: "run (WriteByte 0x012345 0x5A) idle_flash \<noteq> None"
    by (simp add: run_simps)
  note s1 = w [THEN option.collapse, symmetric]
  have i: "run Initialize idle_flash \<noteq> None"
    by (simp add: run_simps)
  note s2 = i [THEN option.collapse, symmetric]
  have "select_count idle_flash (the (run (WriteByte 0x012345 0x5A) idle_flash)) = 4"
    by (simp add: run_simps select_count_def emitted_def)
  then show ?thesis
    using w i framing_balance [OF s1] framing_balance [OF s2] by simp
qed

text \<open>
  Claim C4 as stated fails for \<open>initialize\<close>: on the idle bench (no identifier
  configured, a device that is never busy) its trace holds 6 selects and 7 unselects.
\<close>

theorem framing_initialize_counterexample:
  "initialize idle_flash \<noteq> None
   \<and> select_count idle_flash (snd (the (initialize idle_flash))) = 6
   \<and> unselect_count idle_flash (snd (the (initialize idle_flash))) = 7"
  by (simp add: run_simps select_count_def unselect_count_def emitted_def)

lemma write_enable_checked:
  assumes "run c s = Some s'"
  shows "write_enabled False (frames (emitted s s'))"
  using run_emitted [OF assms] by auto

text \<open>
  Claim C2, as amended. Whenever a public operation returns, what it put on the bus is a
  sequence of complete transactions (\<open>initialize\<close> alone puts one unselect in front
  of them), so that nothing is sent outside them, and every transaction with a mutating
  opcode (STATUS-WRITE, BYTE-OR-PAGE-PROGRAM, BLOCK-ERASE-4K, BLOCK-ERASE-32K, CHIP-ERASE)
  is preceded, within the same call, by a complete WRITE-ENABLE transaction
  (select, 0x06, unselect), with nothing but STATUS-READ polls between the two: however
  the transactions are cut into those before a mutating transaction \<open>f\<close>,
  \<open>f\<close> itself and those after it, the ones before end with a WRITE-ENABLE followed
  by status polls only. This holds for every device and both builds.
\<close>

theorem write_enable_discipline:
  assumes "run c s = Some s'"
  shows "\<exists>fs. emitted s s' = (if c = Initialize then [Unselect] else []) @ wire fs
           \<and> write_enabled False fs
           \<and> (\<forall>pre f post. fs = pre @ f # post \<and> is_mutating f
                 \<longrightarrow> after_write_enable pre)"
proof -
  from run_emitted [OF assms] obtain fs where
    e: "emitted s s' = (if c = Initialize then [Unselect] else []) @ wire fs"
    and w: "write_enabled False fs" by blast
  have "after_write_enable pre" if "fs = pre @ f # post" "is_mutating f" for pre f post
    using write_enabled_explicit [of False pre f post] w that by simp
  with e w show ?thesis by blast
qed

text \<open>
  \<open>chipErase\<close> on the idle bench: poll, WRITE-ENABLE, poll, CHIP-ERASE, and nothing
  else on the bus.
\<close>

theorem write_enable_discipline_witness:
  "run ChipErase idle_flash \<noteq> None
   \<and> emitted idle_flash (the (run ChipErase idle_flash))
       = wire ([[(0x05, 0), (0, 0)], [(0x06, 0)], [(0x05, 0), (0, 0)]] @ [(0x60, 0)] # [])
   \<and> is_mutating [(0x60, 0)]
   \<and> write_enabled False [[(0x05, 0), (0, 0)], [(0x06, 0)], [(0x05, 0), (0, 0)], [(0x60, 0)]]
   \<and> after_write_enable [[(0x05, 0), (0, 0)], [(0x06, 0)], [(0x05, 0), (0, 0)]]"
proof -
  let ?fs = "[[(0x05, 0), (0, 0)], [(0x06, 0)], [(0x05, 0), (0, 0)]] @ [(0x60, 0)] # []"
  have r: "run ChipErase idle_flash \<noteq> None" by (simp add: run_simps)
  note s1 = r [THEN option.collapse, symmetric]
  have t: "emitted idle_flash (the (run ChipErase idle_flash)) = wire ?fs"
    by (simp add: run_simps emitted_def wire_def)
  have m: "is_mutating [(0x60, 0)]"
    by (simp add: is_mutating_def opcode_def mutating_opcodes_def opcode_defs)
  from write_enable_discipline [OF s1] obtain fs where
    e: "emitted idle_flash (the (run ChipErase idle_flash)) = wire fs"
    and w: "write_enabled False fs"
    and a: "\<forall>pre f post. fs = pre @ f # post \<and> is_mutating f \<longrightarrow> after_write_enable pre"
    by auto
  from e t have "frames (wire fs) = frames (wire ?fs)" by simp
  then have fs: "fs = ?fs" by (simp only: frames_wire)
  from a fs m have "after_write_enable [[(0x05, 0), (0, 0)], [(0x06, 0)], [(0x05, 0), (0, 0)]]"
    by blast
  moreover from w fs
  have "write_enabled False [[(0x05, 0), (0, 0)], [(0x06, 0)], [(0x05, 0), (0, 0)], [(0x60, 0)]]"
    by simp
  ultimately show ?thesis using r t m by blast
qed

text \<open>
  Claim C2 as stated asks for the WRITE-ENABLE transaction immediately before the mutating
  opcode. \<open>command\<close> waits for the device between the two, so a STATUS-READ
  always stands there: in the trace of \<open>chipErase\<close> on the idle bench the
  transaction right before CHIP-ERASE is a status poll.
\<close>

theorem write_enable_adjacent_counterexample:
  "chipErase idle_flash \<noteq> None
   \<and> emitted idle_flash (the (chipErase idle_flash))
       = [Select, Xfer 0x05 0, Xfer 0 0, Unselect, Select, Xfer 0x06 0, Unselect,
          Select, Xfer 0x05 0, Xfer 0 0, Unselect, Select, Xfer 0x60 0, Unselect]
   \<and> frames (emitted idle_flash (the (chipErase idle_flash)))
       = [[(0x05, 0), (0, 0)], [(0x06, 0)], [(0x05, 0), (0, 0)], [(0x60, 0)]]
   \<and> \<not> enable_adjacent None (frames (emitted idle_flash (the (chipErase idle_flash))))"
  by (simp add: run_simps emitted_def is_mutating_def is_write_enable_def opcode_def
        mutating_opcodes_def)

lemma busy_check_checked:
  assumes "run c s = Some s'" and "c \<noteq> ReadDeviceId \<or> atmega32u4 s"
  shows "busy_checked False (frames (emitted s s'))"
  using run_emitted [OF assms(1)] assms(2) by auto

text \<open>
  Claim C3, as amended. For every public operation other than \<open>readDeviceId\<close>, and
  for \<open>readDeviceId\<close> too in a build for the ATmega32U4: whenever the operation
  returns, what it put on the bus is a sequence of complete transactions
  (\<open>initialize\<close> alone puts one unselect in front of them), so that no opcode is sent
  outside them, and every transaction whose opcode is not STATUS-READ itself is preceded
  in the trace of the call by at least one STATUS-READ, the last of which returned a
  status with bit 0 clear. This holds for every device.
\<close>

theorem busy_check_discipline:
  assumes "run c s = Some s'" and "c \<noteq> ReadDeviceId \<or> atmega32u4 s"
  shows "\<exists>fs. emitted s s' = (if c = Initialize then [Unselect] else []) @ wire fs
           \<and> busy_checked False fs
           \<and> (\<forall>pre f post. fs = pre @ f # post \<and> \<not> is_status_read f
                 \<longrightarrow> after_ready_poll pre)"
proof -
  from run_emitted [OF assms(1)] assms(2) obtain fs where
    e: "emitted s s' = (if c = Initialize then [Unselect] else []) @ wire fs"
    and b: "busy_checked False fs" by blast
  have "after_ready_poll pre" if "fs = pre @ f # post" "\<not> is_status_read f" for pre f post
    using busy_checked_explicit [of False pre f post] b that by simp
  with e b show ?thesis by blast
qed

text \<open>
  \<open>readByte\<close> on the idle bench, and \<open>readDeviceId\<close> on the ATmega32U4 bench: a
  poll that reports ready, then the command, and nothing else on the bus.
\<close>

theorem busy_check_discipline_witness:
  "run (ReadByte 0x000100) idle_flash \<noteq> None
   \<and> emitted idle_flash (the (run (ReadByte 0x000100) idle_flash))
       = wire ([[(0x05, 0), (0, 0)]] @ [(0x03, 0), (0, 0), (1, 0), (0, 0), (0, 0)] # [])
   \<and> \<not> is_status_read [(0x03, 0), (0, 0), (1, 0), (0, 0), (0, 0)]
   \<and> after_ready_poll [[(0x05, 0), (0, 0)]]
   \<and> run ReadDeviceId leonardo_flash \<noteq> None
   \<and> atmega32u4 leonardo_flash
   \<and> emitted leonardo_flash (the (run ReadDeviceId leonardo_flash))
       = wire ([[(0x05, 0), (0, 0)]] @ [(0x9F, 0), (0, 0), (0, 0)] # [])
   \<and> busy_checked False [[(0x05, 0), (0, 0)], [(0x9F, 0), (0, 0), (0, 0)]]"
proof -
  let ?f1 = "[[(0x05, 0), (0, 0)]] @ [(0x03, 0), (0, 0), (1, 0), (0, 0), (0, 0)] # []"
  let ?f2 = "[[(0x05, 0), (0, 0)]] @ [(0x9F, 0), (0, 0), (0, 0)] # []"
  have r: "run (ReadByte 0x000100) idle_flash \<noteq> None" by (simp add: run_simps)
  note s1 = r [THEN option.collapse, symmetric]
  have n1: "ReadByte 0x000100 \<noteq> ReadDeviceId \<or> atmega32u4 idle_flash" by simp
  have t1: "emitted idle_flash (the (run (ReadByte 0x000100) idle_flash)) = wire ?f1"
    by (simp add: run_simps emitted_def wire_def)
  have k1: "\<not> is_status_read [(0x03, 0), (0, 0), (1, 0), (0, 0), (0, 0)]"
    by (simp add: is_status_read_def)
  have l: "run ReadDeviceId leonardo_flash \<noteq> None"
    by (simp add: run_simps leonardo_flash_def)
  note s2 = l [THEN option.collapse, symmetric]
  have a: "atmega32u4 leonardo_flash" by (simp add: leonardo_flash_def)
  then have n2: "ReadDeviceId \<noteq> ReadDeviceId \<or> atmega32u4 leonardo_flash" by simp
  have t2: "emitted leonardo_flash (the (run ReadDeviceId leonardo_flash)) = wire ?f2"
    by (simp add: run_simps leonardo_flash_def emitted_def wire_def)
  from busy_check_discipline [OF s1 n1] obtain fs where
    e1: "emitted idle_flash (the (run (ReadByte 0x000100) idle_flash)) = wire fs"
    and a1: "\<forall>pre f post. fs = pre @ f # post \<and> \<not> is_status_read f
               \<longrightarrow> after_ready_poll pre"
    by auto
  from e1 t1 have "frames (wire fs) = frames (wire ?f1)" by simp
  then have "fs = ?f1" by (simp only: frames_wire)
  with a1 k1 have p1: "after_ready_poll [[(0x05, 0), (0, 0)]]" by blast
  from busy_check_discipline [OF s2 n2] obtain gs where
    e2: "emitted leonardo_flash (the (run ReadDeviceId leonardo_flash)) = wire gs"
    and b2: "busy_checked False gs" by auto
  from e2 t2 have "frames (wire gs) = frames (wire ?f2)" by simp
  then have "gs = ?f2" by (simp only: frames_wire)
  with b2 have p2: "busy_checked False [[(0x05, 0), (0, 0)], [(0x9F, 0), (0, 0), (0, 0)]]"
    by simp
  from p1 p2 r l a t1 t2 k1 show ?thesis by blast
qed

text \<open>
  Claim C3 as stated fails for \<open>readDeviceId\<close> outside ATmega32U4 builds, where it
  selects and sends JEDEC-ID without going through \<open>command\<close>: on the bus there is
  the JEDEC-ID transaction alone, with no STATUS-READ before the opcode.
\<close>

theorem busy_check_readDeviceId_counterexample:
  "readDeviceId idle_flash \<noteq> None
   \<and> emitted idle_flash (snd (the (readDeviceId idle_flash)))
       = [Select, Xfer 0x9F 0, Xfer 0 0, Xfer 0 0, Unselect]
   \<and> frames (emitted idle_flash (snd (the (readDeviceId idle_flash))))
       = [] @ [(0x9F, 0), (0, 0), (0, 0)] # []
   \<and> \<not> is_status_read [(0x9F, 0), (0, 0), (0, 0)]
   \<and> \<not> after_ready_poll []
   \<and> \<not> busy_checked False (frames (emitted idle_flash (snd (the (readDeviceId idle_flash)))))"
  by (simp add: run_simps emitted_def is_status_read_def after_ready_poll_def)

section \<open>The page-split law\<close>

lemma writeBytes_bursts:
  assumes "writeBytes addr buf len s = Some s'"
  shows "\<exists>fs. write_script buf addr len (first_maxBytes addr) 0 fs
           \<and> program_bursts (emitted s s') = map burst_of (filter is_program fs)"
proof -
  from writeBytes_shape [OF assms] obtain fs where
    fs: "write_script buf addr len (first_maxBytes addr) 0 fs"
    and "trace s' = trace s @ wire fs" by blast
  then have "emitted s s' = wire fs" by simp
  then have "program_bursts (emitted s s') = map burst_of (filter is_program fs)"
    by (simp add: program_bursts_def)
  with fs show ?thesis by blast
qed

lemma page_fill: "(a + (256 - a mod 256)) mod 256 = 0" for a :: nat
proof -
  define q r where "q = a div 256" and "r = a mod 256"
  have a: "a = 256 * q + r" by (simp add: q_def r_def)
  have "r < 256" by (simp add: r_def)
  then have "a + (256 - r) = 256 * (q + 1)" using a by simp
  then have "(a + (256 - r)) mod 256 = 0" by simp
  then show ?thesis by (simp only: r_def)
qed

lemma writeBytes_page_split_returned:
  assumes "0 \<le> sint addr" and "writeBytes addr buf len s = Some s'"
  shows "page_split_law addr buf len (program_bursts (emitted s s'))"
proof -
  from writeBytes_bursts [OF assms(2)] obtain fs where
    fs: "write_script buf addr len (first_maxBytes addr) 0 fs"
    and pb: "program_bursts (emitted s s') = map burst_of (filter is_program fs)" by blast
  let ?bs = "map burst_of (filter is_program fs)"
  have mx: "unat (first_maxBytes addr) = 256 - unat addr mod 256"
    using assms(1) by (rule first_maxBytes_nonneg)
  have "(unat addr + (256 - unat addr mod 256)) mod 256 = 0"
    by (rule page_fill)
  then have inv: "len \<noteq> 0 \<longrightarrow> first_maxBytes addr \<noteq> 0 \<and> unat (first_maxBytes addr) \<le> 256
      \<and> (unat addr + unat (first_maxBytes addr)) mod 256 = 0"
    by (simp add: mx first_maxBytes_nonzero)
  have "unat (0::word16) + unat len < 65536"
    using unsigned_less [of len, where 'a = nat] by simp
  from write_script_split [OF fs inv this]
  have ok: "split_ok buf (unat addr) (unat len) (unat (first_maxBytes addr)) 0 ?bs" by simp
  have s: "sint addr = int (unat addr)" using assms(1) by (rule sint_nonneg_unat)
  have lim: "nat (256 - sint addr mod 256) = unat (first_maxBytes addr)"
  proof -
    define k where "k = unat addr mod 256"
    have "int (unat addr) mod 256 = int k"
      unfolding k_def by (simp only: zmod_int of_nat_numeral)
    then have "nat (256 - sint addr mod 256) = nat (256 - int k)" by (simp only: s)
    also have "\<dots> = 256 - k" by simp
    finally show ?thesis by (simp only: mx k_def)
  qed
  have "page_split_law addr buf len ?bs"
    using ok unfolding page_split_law_def split_ok_def s [symmetric] lim
    by (cases ?bs) simp_all
  then show ?thesis by (simp only: pb)
qed

text \<open>
  Claim C1, as amended. For every address \<open>addr \<ge> 0\<close> (it is a signed
  \<open>long\<close>), every buffer and every length, on a responsive device
  \<open>writeBytes(addr, buf, len)\<close> returns, what it put on the bus is a sequence of
  complete transactions, and the program bursts among them obey the page-split law: they
  tile \<open>[addr, addr + len)\<close>, no burst crosses a multiple of 256, the first writes at
  most \<open>256 - addr mod 256\<close> bytes, every later one at most 256, and their data in
  order is \<open>buf[0..len)\<close>.
\<close>

theorem writeBytes_page_split:
  assumes "0 \<le> sint addr" and "responsive s"
  shows "\<exists>s' fs. writeBytes addr buf len s = Some s' \<and> emitted s s' = wire fs
           \<and> page_split_law addr buf len (program_bursts (emitted s s'))"
proof -
  from writeBytes_returns [OF assms(2)] obtain s' where
    r: "writeBytes addr buf len s = Some s'" ..
  from writeBytes_shape [OF r] obtain fs where "trace s' = trace s @ wire fs" by blast
  then have "emitted s s' = wire fs" by simp
  with r writeBytes_page_split_returned [OF assms(1) r] show ?thesis by blast
qed

lemma negative_longs: "(- 1 :: long) = 0xFFFFFFFF" "(- 2 :: long) = 0xFFFFFFFE"
  by simp_all

lemma unat_negative_longs: "unat (- 1 :: long) = 4294967295" "unat (- 2 :: long) = 4294967294"
  unfolding negative_longs by simp_all

lemmas observe_simps = unat_negative_longs
  emitted_def program_bursts_def burst_of_def be24_three is_program_def opcode_def
  unat_byte16 unat_byte8 unat_byte0

text \<open>
  Scenario S2 of the specification: four bytes at 0x0000FE go out as two bursts, two bytes
  at 0x0000FE and two at 0x000100, each after its poll, WRITE-ENABLE, poll.
\<close>

theorem writeBytes_page_split_witness:
  "0 \<le> sint (0xFE :: long)
   \<and> responsive idle_flash
   \<and> writeBytes 0xFE demo_buf 4 idle_flash \<noteq> None
   \<and> emitted idle_flash (the (writeBytes 0xFE demo_buf 4 idle_flash))
       = wire [[(0x05, 0), (0, 0)], [(0x06, 0)], [(0x05, 0), (0, 0)],
               [(0x02, 0), (0x00, 0), (0x00, 0), (0xFE, 0), (1, 0), (2, 0)],
               [(0x05, 0), (0, 0)], [(0x06, 0)], [(0x05, 0), (0, 0)],
               [(0x02, 0), (0x00, 0), (0x01, 0), (0x00, 0), (3, 0), (4, 0)]]
   \<and> program_bursts (emitted idle_flash (the (writeBytes 0xFE demo_buf 4 idle_flash)))
       = [(254, [1, 2]), (256, [3, 4])]
   \<and> page_split_law 0xFE demo_buf 4 [(254, [1, 2]), (256, [3, 4])]"
proof -
  have p: "0 \<le> sint (0xFE :: long)" by simp
  have r: "writeBytes 0xFE demo_buf 4 idle_flash \<noteq> None"
    by (simp add: run_simps first_maxBytes_def)
  have t: "emitted idle_flash (the (writeBytes 0xFE demo_buf 4 idle_flash))
       = wire [[(0x05, 0), (0, 0)], [(0x06, 0)], [(0x05, 0), (0, 0)],
               [(0x02, 0), (0x00, 0), (0x00, 0), (0xFE, 0), (1, 0), (2, 0)],
               [(0x05, 0), (0, 0)], [(0x06, 0)], [(0x05, 0), (0, 0)],
               [(0x02, 0), (0x00, 0), (0x01, 0), (0x00, 0), (3, 0), (4, 0)]]"
    by (simp add: run_simps first_maxBytes_def emitted_def wire_def demo_buf_def)
  have b: "program_bursts (emitted idle_flash (the (writeBytes 0xFE demo_buf 4 idle_flash)))
       = [(254, [1, 2]), (256, [3, 4])]"
    by (simp add: run_simps first_maxBytes_def observe_simps demo_buf_def)
  from writeBytes_page_split [OF p responsive_idle(1), of demo_buf 4] obtain s' where
    "writeBytes 0xFE demo_buf 4 idle_flash = Some s'"
    "page_split_law 0xFE demo_buf 4 (program_bursts (emitted idle_flash s'))" by blast
  then have "page_split_law 0xFE demo_buf 4
      (program_bursts (emitted idle_flash (the (writeBytes 0xFE demo_buf 4 idle_flash))))"
    by simp
  then have "page_split_law 0xFE demo_buf 4 [(254, [1, 2]), (256, [3, 4])]"
    by (simp only: b)
  with p r t b responsive_idle(1) show ?thesis by blast
qed

text \<open>
  Claim C1 as stated, for every address, fails at a negative one:
  \<open>writeBytes(-2, buf, 4)\<close> computes a first limit of 258 and sends all four
  bytes in one burst at wire address 0xFFFFFE, two bytes short of a page boundary.
\<close>

theorem writeBytes_negative_address_counterexample:
  "writeBytes (- 2) demo_buf 4 idle_flash \<noteq> None
   \<and> program_bursts (emitted idle_flash (the (writeBytes (- 2) demo_buf 4 idle_flash)))
       = [(16777214, [1, 2, 3, 4])]
   \<and> \<not> page_split_law (- 2) demo_buf 4
        (program_bursts (emitted idle_flash (the (writeBytes (- 2) demo_buf 4 idle_flash))))"
proof -
  have r: "writeBytes (- 2) demo_buf 4 idle_flash \<noteq> None"
    by (simp add: run_simps first_maxBytes_def)
  have b: "program_bursts (emitted idle_flash (the (writeBytes (- 2) demo_buf 4 idle_flash)))
       = [(16777214, [1, 2, 3, 4])]"
    by (simp add: run_simps first_maxBytes_def observe_simps demo_buf_def)
  have "\<not> page_split_law (- 2) demo_buf 4 [(16777214, [1, 2, 3, 4])]"
    by (simp add: page_split_law_def within_page_def)
  with r b show ?thesis by simp
qed

text \<open>
  Claim C6. \<open>writeBytes(addr, buf, 0)\<close> returns at once with the state it was
  given: nothing is selected, nothing is sent, the trace is unchanged.
\<close>

theorem writeBytes_zero_length:
  "writeBytes addr buf 0 s = Some s \<and> emitted s s = []"
  by (simp add: writeBytes_def writeBytes_loop.simps emitted_def)

lemma write_script_single:
  assumes "write_script buf addr len mx 0 fs" and "len \<noteq> 0" and "len \<le> mx"
  shows "map burst_of (filter is_program fs)
       = [(unat addr mod 16777216, map buf [0..<unat len])]"
  using assms(1)
proof (cases rule: write_script.cases)
  case finished
  with assms(2) show ?thesis by simp
next
  case (burst n f fs1 rest)
  from burst(3) assms(3) have n: "n = len" by simp
  from burst(6) have "rest = []"
    unfolding n by (cases rule: write_script.cases) simp_all
  from program_transaction [OF burst(4)] obtain r where
    fl: "filter is_program fs1 = [(SPIFLASH_BYTEPAGEPROGRAM, r) # f]" ..
  have "unat (0::word16) + unat len < 65536"
    using unsigned_less [of len, where 'a = nat] by simp
  from sent_data_no_wrap [OF this, of buf] burst(5)
  have "map fst f = addr_bytes addr @ map buf [0..<unat len]" by (simp add: n)
  from burst_of_command [OF this] show ?thesis
    by (simp add: burst(1) \<open>rest = []\<close> fl)
qed

text \<open>
  Claim C10. The page guarantee needs \<open>addr \<ge> 0\<close> (the page-split law above is
  proved for every such address). At \<open>addr = -1\<close> the remainder \<open>addr % 256\<close> is
  \<open>-1\<close>, the first limit is 257, and \<open>writeBytes(-1, buf, 257)\<close> sends all 257
  bytes in a single burst at wire address 0xFFFFFF, which crosses a multiple of 256.
\<close>

theorem writeBytes_negative_address_limit:
  "sint (- 1 :: long) < 0
   \<and> unat (first_maxBytes (- 1)) = 257
   \<and> (\<exists>s'. writeBytes (- 1) demo_buf 257 idle_flash = Some s'
          \<and> program_bursts (emitted idle_flash s') = [(16777215, map demo_buf [0..<257])])
   \<and> \<not> within_page (16777215, map demo_buf [0..<257])"
proof -
  have m: "unat (first_maxBytes (- 1)) = 257"
    by (simp add: unat_first_maxBytes signed_modulo_int_def)
  have mx: "first_maxBytes (- 1) = 257"
    by (simp add: first_maxBytes_def signed_modulo_int_def)
  from writeBytes_returns [OF responsive_idle(1)] obtain s' where
    w: "writeBytes (- 1) demo_buf 257 idle_flash = Some s'" by blast
  from writeBytes_bursts [OF w] obtain fs where
    fs: "write_script demo_buf (- 1) 257 (first_maxBytes (- 1)) 0 fs"
    and pb: "program_bursts (emitted idle_flash s') = map burst_of (filter is_program fs)"
    by blast
  have "map burst_of (filter is_program fs)
      = [(unat (- 1 :: long) mod 16777216, map demo_buf [0..<unat (257 :: word16)])]"
    using fs by (rule write_script_single) (simp_all add: mx)
  then have "program_bursts (emitted idle_flash s') = [(16777215, map demo_buf [0..<257])]"
    by (simp add: pb unat_negative_longs)
  moreover have "\<not> within_page (16777215, map demo_buf [0..<257])"
    by (simp add: within_page_def)
  ultimately show ?thesis using m w by auto
qed

section \<open>The identifier probe\<close>

lemma polling_no_id: "polling ps \<Longrightarrow> filter is_id_read ps = []"
  by (induction ps rule: polling.induct)
     (auto simp: is_id_read_def is_status_read_def opcode_def opcode_defs split: list.splits)

lemma transaction_no_id:
  assumes "transaction cmd w f fs" and "cmd \<noteq> SPIFLASH_IDREAD"
  shows "filter is_id_read fs = []"
proof -
  from assms(1) obtain pre r where fs: "fs = pre @ [(cmd, r) # f]" and pre: "preamble w pre"
    by (auto simp: transaction_def)
  have "filter is_id_read pre = []"
  proof (cases w)
    case True
    with pre obtain ps r' qs where "pre = ps @ [(SPIFLASH_WRITEENABLE, r')] # qs"
      "polling ps" "polling qs" by (auto simp: preamble_def)
    then show ?thesis
      by (simp add: polling_no_id is_id_read_def opcode_def opcode_defs)
  next
    case False
    with pre show ?thesis by (simp add: preamble_def polling_no_id)
  qed
  then show ?thesis using assms(2) by (simp add: fs is_id_read_def opcode_def)
qed

lemma transaction_last: "transaction cmd w f fs \<Longrightarrow> \<exists>r. last fs = (cmd, r) # f"
  by (auto simp: transaction_def)

lemma transaction_not_Nil: "transaction cmd w f fs \<Longrightarrow> fs \<noteq> []"
  by (auto simp: transaction_def)

lemma id_frames_filter:
  assumes "id_frames leonardo hi lo fi"
  shows "\<exists>r. filter is_id_read fi = [[(SPIFLASH_IDREAD, r), (0, hi), (0, lo)]]
           \<and> last fi = [(SPIFLASH_IDREAD, r), (0, hi), (0, lo)]" and "fi \<noteq> []"
proof -
  from assms obtain pre r where fi: "fi = pre @ [[(SPIFLASH_IDREAD, r), (0, hi), (0, lo)]]"
    and pre: "if leonardo then polling pre else pre = []"
    by (auto simp: id_frames_def)
  have "filter is_id_read pre = []"
    using pre by (cases leonardo) (simp_all add: polling_no_id)
  then have "filter is_id_read fi = [[(SPIFLASH_IDREAD, r), (0, hi), (0, lo)]]"
    by (simp add: fi is_id_read_def opcode_def)
  moreover have "last fi = [(SPIFLASH_IDREAD, r), (0, hi), (0, lo)]" by (simp add: fi)
  ultimately show "\<exists>r. filter is_id_read fi = [[(SPIFLASH_IDREAD, r), (0, hi), (0, lo)]]
           \<and> last fi = [(SPIFLASH_IDREAD, r), (0, hi), (0, lo)]" by blast
  show "fi \<noteq> []" by (simp add: fi)
qed

lemma initialize_probe_returned:
  assumes "initialize s = Some (ok, s')"
  shows "\<exists>fw fi fu. emitted s s' = Unselect # wire (fw @ fi @ fu)
       \<and> transaction SPIFLASH_WAKE False [] fw
       \<and> (if jedecID s = 0 then fi = [] \<and> ok
           else \<exists>hi lo. id_frames (atmega32u4 s) hi lo fi
                  \<and> ok = (jedec_word hi lo = jedecID s))
       \<and> (if ok then \<exists>y. transaction SPIFLASH_STATUSWRITE True [(0, y)] fu else fu = [])
       \<and> (ok \<longleftrightarrow> jedecID s = 0 \<or> device_id (fw @ fi @ fu) = Some (jedecID s))
       \<and> map fst (last (fw @ fi @ fu))
           = (if ok then [SPIFLASH_STATUSWRITE, 0] else [SPIFLASH_IDREAD, 0, 0])
       \<and> write_enabled False (fw @ fi @ fu)"
proof -
  from initialize_shape [OF assms] obtain fw fi fu where
    fw: "transaction SPIFLASH_WAKE False [] fw"
    and tr: "trace s' = trace s @ Unselect # wire (fw @ fi @ fu)"
    and fi: "if jedecID s = 0 then fi = [] \<and> ok
             else \<exists>hi lo. id_frames (atmega32u4 s) hi lo fi
                    \<and> ok = (jedec_word hi lo = jedecID s)"
    and fu: "if ok then \<exists>y. transaction SPIFLASH_STATUSWRITE True [(0, y)] fu else fu = []"
    by blast
  from tr have em: "emitted s s' = Unselect # wire (fw @ fi @ fu)" by (simp add: emitted_def)
  then have fr: "frames (emitted s s') = fw @ fi @ fu" by simp
  have nw: "filter is_id_read fw = []"
    using fw by (rule transaction_no_id) (simp add: opcode_defs)
  have nu: "filter is_id_read fu = []"
  proof (cases ok)
    case True
    with fu obtain y where "transaction SPIFLASH_STATUSWRITE True [(0, y)] fu" by auto
    then show ?thesis by (rule transaction_no_id) (simp add: opcode_defs)
  next
    case False
    with fu show ?thesis by simp
  qed
  have probe: "ok \<longleftrightarrow> jedecID s = 0 \<or> device_id (fw @ fi @ fu) = Some (jedecID s)"
  proof (cases "jedecID s = 0")
    case True
    with fi show ?thesis by simp
  next
    case False
    with fi obtain hi lo where idf: "id_frames (atmega32u4 s) hi lo fi"
      and ok: "ok = (jedec_word hi lo = jedecID s)" by auto
    from id_frames_filter(1) [OF idf] obtain r where
      "filter is_id_read fi = [[(SPIFLASH_IDREAD, r), (0, hi), (0, lo)]]" by blast
    then have "device_id (fw @ fi @ fu) = Some (jedec_word hi lo)"
      by (simp add: device_id_def nw nu)
    then show ?thesis using False ok by simp
  qed
  have lst: "map fst (last (fw @ fi @ fu))
           = (if ok then [SPIFLASH_STATUSWRITE, 0] else [SPIFLASH_IDREAD, 0, 0])"
  proof (cases ok)
    case True
    with fu obtain y where t: "transaction SPIFLASH_STATUSWRITE True [(0, y)] fu" by auto
    from transaction_last [OF t] transaction_not_Nil [OF t] show ?thesis
      using True by auto
  next
    case False
    with fu have fu0: "fu = []" by simp
    from False fi have "jedecID s \<noteq> 0" by (auto split: if_splits)
    with fi obtain hi lo where idf: "id_frames (atmega32u4 s) hi lo fi" by auto
    from id_frames_filter [OF idf] show ?thesis using False fu0 by auto
  qed
  have "write_enabled False (frames (emitted s s'))"
    using write_enable_checked [of Initialize s s'] assms by simp
  then have we: "write_enabled False (fw @ fi @ fu)" by (simp only: fr)
  from em fw fi fu probe lst we show ?thesis by blast
qed

lemma responsive_probe_benches:
  "responsive (SPIFlash 8 0xEF30 (bench winbond_replies))"
  "responsive (SPIFlash 8 0xEF30 (bench other_replies))"
proof -
  have "\<exists>k. winbond_replies (Suc (p + 2 * k)) AND 1 = 0" for p
    by (rule exI [of _ 3]) (simp add: winbond_replies_def)
  then show "responsive (SPIFlash 8 0xEF30 (bench winbond_replies))"
    by (simp add: responsive_def SPIFlash_def bench_def)
  have "\<exists>k. other_replies (Suc (p + 2 * k)) AND 1 = 0" for p
    by (rule exI [of _ 3]) (simp add: other_replies_def)
  then show "responsive (SPIFlash 8 0xEF30 (bench other_replies))"
    by (simp add: responsive_def SPIFlash_def bench_def)
qed

text \<open>
  Claim C5. On a responsive device \<open>initialize\<close> returns, and what it put on the bus
  is exactly: one unselect, the WAKE transaction after its polls, then (only when an
  identifier is configured) the JEDEC-ID transaction, then (only when it returns true)
  the STATUS-WRITE transaction with the single payload byte 0, sent after a WRITE-ENABLE.
  It returns true if and only if the configured identifier is 0 or the identifier read
  from the bus equals it. After a mismatch the JEDEC-ID transaction is the last thing on
  the bus: no further command is sent.
\<close>

theorem initialize_probe:
  assumes "responsive s"
  shows "\<exists>ok s' fw fi fu. initialize s = Some (ok, s')
       \<and> emitted s s' = Unselect # wire (fw @ fi @ fu)
       \<and> transaction SPIFLASH_WAKE False [] fw
       \<and> (if jedecID s = 0 then fi = [] \<and> ok
           else \<exists>hi lo. id_frames (atmega32u4 s) hi lo fi
                  \<and> ok = (jedec_word hi lo = jedecID s))
       \<and> (if ok then \<exists>y. transaction SPIFLASH_STATUSWRITE True [(0, y)] fu else fu = [])
       \<and> (ok \<longleftrightarrow> jedecID s = 0 \<or> device_id (fw @ fi @ fu) = Some (jedecID s))
       \<and> map fst (last (fw @ fi @ fu))
           = (if ok then [SPIFLASH_STATUSWRITE, 0] else [SPIFLASH_IDREAD, 0, 0])
       \<and> write_enabled False (fw @ fi @ fu)"
proof -
  from initialize_returns [OF assms] obtain ok s' where
    r: "initialize s = Some (ok, s')" by auto
  from initialize_probe_returned [OF r] r show ?thesis by blast
qed

text \<open>
  Scenario S6 of the specification: expected identifier 0xEF30; a device answering
  0xEF, 0x30 gives true and a final STATUS-WRITE 0x00, one answering 0xEF, 0x40 gives
  false and nothing after the JEDEC-ID transaction.
\<close>

theorem initialize_probe_witness:
  "responsive (SPIFlash 8 0xEF30 (bench winbond_replies))
   \<and> initialize (SPIFlash 8 0xEF30 (bench winbond_replies)) \<noteq> None
   \<and> fst (the (initialize (SPIFlash 8 0xEF30 (bench winbond_replies)))) = True
   \<and> emitted (SPIFlash 8 0xEF30 (bench winbond_replies))
        (snd (the (initialize (SPIFlash 8 0xEF30 (bench winbond_replies)))))
       = Unselect # wire [[(0x05, 0), (0, 0)], [(0xAB, 0)], [(0x9F, 0), (0, 0xEF), (0, 0x30)],
           [(0x05, 0), (0, 0)], [(0x06, 0)], [(0x05, 0), (0, 0)], [(0x01, 0), (0, 0)]]
   \<and> device_id (frames (emitted (SPIFlash 8 0xEF30 (bench winbond_replies))
        (snd (the (initialize (SPIFlash 8 0xEF30 (bench winbond_replies))))))) = Some 0xEF30
   \<and> write_enabled False (frames (emitted (SPIFlash 8 0xEF30 (bench winbond_replies))
        (snd (the (initialize (SPIFlash 8 0xEF30 (bench winbond_replies)))))))
   \<and> responsive (SPIFlash 8 0xEF30 (bench other_replies))
   \<and> initialize (SPIFlash 8 0xEF30 (bench other_replies)) \<noteq> None
   \<and> fst (the (initialize (SPIFlash 8 0xEF30 (bench other_replies)))) = False
   \<and> emitted (SPIFlash 8 0xEF30 (bench other_replies))
        (snd (the (initialize (SPIFlash 8 0xEF30 (bench other_replies)))))
       = Unselect # wire [[(0x05, 0), (0, 0)], [(0xAB, 0)], [(0x9F, 0), (0, 0xEF), (0, 0x40)]]
   \<and> device_id (frames (emitted (SPIFlash 8 0xEF30 (bench other_replies))
        (snd (the (initialize (SPIFlash 8 0xEF30 (bench other_replies))))))) = Some 0xEF40
   \<and> write_enabled False (frames (emitted (SPIFlash 8 0xEF30 (bench other_replies))
        (snd (the (initialize (SPIFlash 8 0xEF30 (bench other_replies)))))))"
proof -
  let ?a = "SPIFlash 8 0xEF30 (bench winbond_replies)"
  let ?b = "SPIFlash 8 0xEF30 (bench other_replies)"
  have ra: "initialize ?a \<noteq> None"
    by (simp add: run_simps winbond_replies_def)
  have rb: "initialize ?b \<noteq> None"
    by (simp add: run_simps other_replies_def)
  have oa: "fst (the (initialize ?a)) = True"
    by (simp add: run_simps winbond_replies_def jedec_word_def)
  have ob: "fst (the (initialize ?b)) = False"
    by (simp add: run_simps other_replies_def jedec_word_def)
  have ta: "emitted ?a (snd (the (initialize ?a)))
       = Unselect # wire [[(0x05, 0), (0, 0)], [(0xAB, 0)], [(0x9F, 0), (0, 0xEF), (0, 0x30)],
           [(0x05, 0), (0, 0)], [(0x06, 0)], [(0x05, 0), (0, 0)], [(0x01, 0), (0, 0)]]"
    by (simp add: run_simps winbond_replies_def emitted_def wire_def)
  have tb: "emitted ?b (snd (the (initialize ?b)))
       = Unselect # wire [[(0x05, 0), (0, 0)], [(0xAB, 0)], [(0x9F, 0), (0, 0xEF), (0, 0x40)]]"
    by (simp add: run_simps other_replies_def emitted_def wire_def)
  have da: "device_id (frames (emitted ?a (snd (the (initialize ?a))))) = Some 0xEF30"
    by (simp add: run_simps winbond_replies_def emitted_def device_id_def is_id_read_def
          opcode_def jedec_word_def)
  have db: "device_id (frames (emitted ?b (snd (the (initialize ?b))))) = Some 0xEF40"
    by (simp add: run_simps other_replies_def emitted_def device_id_def is_id_read_def
          opcode_def jedec_word_def)
  from initialize_probe [OF responsive_probe_benches(1)] obtain ok s' fw fi fu where
    "initialize ?a = Some (ok, s')" "emitted ?a s' = Unselect # wire (fw @ fi @ fu)"
    "write_enabled False (fw @ fi @ fu)" by blast
  then have wa: "write_enabled False (frames (emitted ?a (snd (the (initialize ?a)))))"
    by simp
  from initialize_probe [OF responsive_probe_benches(2)] obtain ok s' fw fi fu where
    "initialize ?b = Some (ok, s')" "emitted ?b s' = Unselect # wire (fw @ fi @ fu)"
    "write_enabled False (fw @ fi @ fu)" by blast
  then have wb: "write_enabled False (frames (emitted ?b (snd (the (initialize ?b)))))"
    by simp
  from responsive_probe_benches ra rb oa ob ta tb da db wa wb show ?thesis by blast
qed

section \<open>Address encoding\<close>

lemma big_endian_24_addr_bytes: "big_endian_24 a = addr_bytes a"
  unfolding big_endian_24_def by (rule c7form)

lemma polling_with_opcode:
  "polling ps \<Longrightarrow> c \<noteq> SPIFLASH_STATUSREAD \<Longrightarrow> with_opcode c ps = []"
  by (induction ps rule: polling.induct)
     (auto simp: with_opcode_def is_status_read_def opcode_def split: list.splits)

lemma transaction_with_opcode:
  assumes "transaction cmd w f fs"
    and "cmd \<noteq> SPIFLASH_WRITEENABLE" and "cmd \<noteq> SPIFLASH_STATUSREAD"
  shows "\<exists>r. with_opcode cmd fs = [(cmd, r) # f]"
proof -
  from assms(1) obtain pre r where fs: "fs = pre @ [(cmd, r) # f]" and pre: "preamble w pre"
    by (auto simp: transaction_def)
  have "with_opcode cmd pre = []"
  proof (cases w)
    case True
    with pre obtain ps r' qs where p: "pre = ps @ [(SPIFLASH_WRITEENABLE, r')] # qs"
      "polling ps" "polling qs" by (auto simp: preamble_def)
    have "with_opcode cmd pre
        = with_opcode cmd ps @ with_opcode cmd [[(SPIFLASH_WRITEENABLE, r')]]
          @ with_opcode cmd qs"
      by (simp add: p(1) with_opcode_def)
    then show ?thesis
      using polling_with_opcode [OF p(2) assms(3)] polling_with_opcode [OF p(3) assms(3)]
        assms(2) by (simp add: with_opcode_def opcode_def)
  next
    case False
    with pre show ?thesis by (simp add: preamble_def polling_with_opcode assms(3))
  qed
  then have "with_opcode cmd fs = [(cmd, r) # f]"
    by (simp add: fs with_opcode_def opcode_def)
  then show ?thesis ..
qed

lemma address_field_command:
  "map fst f = addr_bytes a @ d \<Longrightarrow> address_field ((c, r) # f) = big_endian_24 a"
  by (simp add: address_field_def big_endian_24_addr_bytes) (simp add: addr_bytes_def)

lemma write_script_addressed:
  "write_script buf addr len mx off fs \<Longrightarrow>
     addressed_from addr (with_opcode SPIFLASH_BYTEPAGEPROGRAM fs)
     \<and> (len \<noteq> 0 \<longrightarrow> with_opcode SPIFLASH_BYTEPAGEPROGRAM fs \<noteq> [])"
proof (induction rule: write_script.induct)
  case (finished len addr maxBytes offset)
  then show ?case by (simp add: with_opcode_def)
next
  case (burst len n maxBytes f fs addr offset rest)
  from transaction_with_opcode [OF burst(3)] obtain r where
    w: "with_opcode SPIFLASH_BYTEPAGEPROGRAM fs = [(SPIFLASH_BYTEPAGEPROGRAM, r) # f]"
    by (auto simp: opcode_defs)
  have app: "with_opcode SPIFLASH_BYTEPAGEPROGRAM (fs @ rest)
      = ((SPIFLASH_BYTEPAGEPROGRAM, r) # f) # with_opcode SPIFLASH_BYTEPAGEPROGRAM rest"
    using w by (simp add: with_opcode_def)
  have af: "address_field ((SPIFLASH_BYTEPAGEPROGRAM, r) # f) = big_endian_24 addr"
    using burst(4) by (rule address_field_command)
  have "length f = 3 + unat n"
    using arg_cong [OF burst(4), of length] by (simp add: addr_bytes_def)
  then have "(of_nat (length ((SPIFLASH_BYTEPAGEPROGRAM, r) # f) - 4) :: long) = ucast n"
    by simp
  then show ?case using burst.IH af by (simp add: app)
qed

lemma address_encoding_returned:
  assumes "run c s = Some s'" and "addressed c = Some (op, a)"
  shows "with_opcode op (frames (emitted s s')) \<noteq> []
       \<and> addressed_from a (with_opcode op (frames (emitted s s')))"
proof -
  have single: ?thesis
    if "transaction op w f fs" "map fst f = addr_bytes a @ d" "trace s' = trace s @ wire fs"
      "op \<noteq> SPIFLASH_WRITEENABLE" "op \<noteq> SPIFLASH_STATUSREAD" for w f fs d
  proof -
    from transaction_with_opcode [OF that(1,4,5)] obtain r where
      "with_opcode op fs = [(op, r) # f]" ..
    moreover have "frames (emitted s s') = fs" using that(3) by simp
    ultimately show ?thesis using address_field_command [OF that(2)] by simp
  qed
  show ?thesis
  proof (cases c)
    case (ReadByte addr)
    with assms obtain r where "readByte a s = Some (r, s')"
      and op: "op = SPIFLASH_ARRAYREADLOWFREQ" by auto
    from readByte_shape [OF this(1)] obtain fs f where
      "transaction SPIFLASH_ARRAYREADLOWFREQ False (f @ [(0, r)]) fs"
      "map fst f = addr_bytes a" "trace s' = trace s @ wire fs" by blast
    then show ?thesis unfolding op
      by (intro single [unfolded op, of False "f @ [(0, r)]" fs "[0]"]) (simp_all add: opcode_defs)
  next
    case (ReadBytes addr buf len)
    with assms obtain b where "readBytes a buf len s = Some (b, s')"
      and op: "op = SPIFLASH_ARRAYREAD" by auto
    from readBytes_shape [OF this(1)] obtain fs f d g where
      "transaction SPIFLASH_ARRAYREAD False (f @ [(0, d)] @ g) fs"
      "map fst f = addr_bytes a" "trace s' = trace s @ wire fs" by blast
    then show ?thesis unfolding op
      by (intro single [unfolded op, of False "f @ [(0, d)] @ g" fs "0 # map fst g"])
         (simp_all add: opcode_defs)
  next
    case (WriteByte addr byt)
    with assms have "writeByte a byt s = Some s'"
      and op: "op = SPIFLASH_BYTEPAGEPROGRAM" by auto
    from writeByte_shape [OF this(1)] obtain fs f where
      "transaction SPIFLASH_BYTEPAGEPROGRAM True f fs"
      "map fst f = addr_bytes a @ [byt]" "trace s' = trace s @ wire fs" by blast
    then show ?thesis unfolding op
      by (intro single [unfolded op, of True f fs "[byt]"]) (simp_all add: opcode_defs)
  next
    case (WriteBytes addr buf len)
    with assms have w: "writeBytes a buf len s = Some s'"
      and op: "op = SPIFLASH_BYTEPAGEPROGRAM" and len: "len \<noteq> 0"
      by (auto split: if_splits)
    from writeBytes_shape [OF w] obtain fs where
      fs: "write_script buf a len (first_maxBytes a) 0 fs" "trace s' = trace s @ wire fs"
      by blast
    from fs(2) have "frames (emitted s s') = fs" by simp
    with write_script_addressed [OF fs(1)] len show ?thesis by (simp add: op)
  next
    case (BlockErase4K addr)
    with assms have "blockErase4K a s = Some s'"
      and op: "op = SPIFLASH_BLOCKERASE_4K" by auto
    from blockErase4K_shape [OF this(1)] obtain fs f where
      "transaction SPIFLASH_BLOCKERASE_4K True f fs"
      "map fst f = addr_bytes a" "trace s' = trace s @ wire fs" by blast
    then show ?thesis unfolding op
      by (intro single [unfolded op, of True f fs "[]"]) (simp_all add: opcode_defs)
  next
    case (BlockErase32K addr)
    with assms have "blockErase32K a s = Some s'"
      and op: "op = SPIFLASH_BLOCKERASE_32K" by auto
    from blockErase32K_shape [OF this(1)] obtain fs f where
      "transaction SPIFLASH_BLOCKERASE_32K True f fs"
      "map fst f = addr_bytes a" "trace s' = trace s @ wire fs" by blast
    then show ?thesis unfolding op
      by (intro single [unfolded op, of True f fs "[]"]) (simp_all add: opcode_defs)
  qed (use assms(2) in simp_all)
qed

text \<open>
  Claim C7. On a responsive device every address-taking call (readByte, readBytes,
  writeByte, writeBytes, blockErase4K, blockErase32K) returns, what it put on the bus is
  a sequence of complete transactions, at least one of them has the call's opcode, and
  every one that has carries, right after the opcode, the three bytes
  \<open>(a >> 16) & 0xFF\<close>, \<open>(a >> 8) & 0xFF\<close>, \<open>a & 0xFF\<close> of its address, in that
  order. For \<open>writeBytes\<close> the address of a burst is the address given plus the number
  of bytes already written; the other calls have one transaction, at the address given.
  This holds for every value of the \<open>long\<close>, the 24-bit addresses among them.
\<close>

theorem address_encoding:
  assumes "responsive s" and "addressed c = Some (op, a)"
  shows "\<exists>s' fs. run c s = Some s' \<and> emitted s s' = wire fs
           \<and> with_opcode op fs \<noteq> [] \<and> addressed_from a (with_opcode op fs)"
proof -
  from run_returns [OF assms(1)] obtain s' where r: "run c s = Some s'" ..
  have "c \<noteq> Initialize" using assms(2) by auto
  with run_emitted [OF r] obtain fs where
    e: "emitted s s' = wire fs" and f: "frames (emitted s s') = fs" by auto
  from address_encoding_returned [OF r assms(2)] r e show ?thesis
    unfolding f by blast
qed

section \<open>Identifier packing and the wire shape of readBytes\<close>

lemma jedec_word_cat: "jedec_word hi lo = word_cat hi lo"
  by (simp add: jedec_word_def word_cat_eq_push_bit_or)

lemma unat_ucast_byte: "unat (ucast (b::byte) :: word16) = unat b"
proof -
  have "unat b < 256" using unsigned_less [of b, where 'a = nat] by simp
  then show ?thesis by (simp add: unsigned_ucast_eq take_bit_eq_mod)
qed

lemma unat_jedec_word: "unat (jedec_word hi lo) = 256 * unat hi + unat lo"
proof -
  have hi: "unat hi < 256" and lo: "unat lo < 256"
    using unsigned_less [of hi, where 'a = nat] unsigned_less [of lo, where 'a = nat]
    by simp_all
  have "jedec_word hi lo = push_bit 8 (ucast hi) + ucast lo"
    unfolding jedec_word_cat by (simp add: word_cat_eq)
  also have "\<dots> = ucast hi * 256 + ucast lo" by (simp add: push_bit_eq_mult)
  finally have "unat (jedec_word hi lo) = (unat hi * 256 mod 65536 + unat lo) mod 65536"
    by (simp add: unat_word_ariths unat_ucast_byte mod_add_left_eq)
  also have "\<dots> = 256 * unat hi + unat lo" using hi lo by simp
  finally show ?thesis .
qed

lemma readDeviceId_packing_returned:
  assumes "readDeviceId s = Some (devid, s')"
  shows "\<exists>pre r hi lo. (if atmega32u4 s then polling pre else pre = [])
       \<and> emitted s s' = wire pre @ [Select, Xfer SPIFLASH_IDREAD r, Xfer 0 hi, Xfer 0 lo, Unselect]
       \<and> devid = push_bit 8 (ucast hi) OR ucast lo
       \<and> unat devid = 256 * unat hi + unat lo"
proof -
  from readDeviceId_shape [OF assms] obtain pre r hi lo where
    pre: "if atmega32u4 s then polling pre else pre = []"
    and d: "devid = jedec_word hi lo"
    and tr: "trace s' = trace s @ wire (pre @ [[(SPIFLASH_IDREAD, r), (0, hi), (0, lo)]])"
    by blast
  from tr have "emitted s s'
      = wire pre @ [Select, Xfer SPIFLASH_IDREAD r, Xfer 0 hi, Xfer 0 lo, Unselect]"
    by (simp add: emitted_def wire_append wire_Cons frame_events_def exch_def)
  moreover have "devid = push_bit 8 (ucast hi) OR ucast lo" by (simp add: d jedec_word_def)
  moreover have "unat devid = 256 * unat hi + unat lo" unfolding d by (rule unat_jedec_word)
  ultimately show ?thesis using pre by blast
qed

text \<open>
  Claim C9. \<open>readDeviceId\<close> returns (on a responsive device in a build for the
  ATmega32U4, where it waits for the device first; on every device otherwise), and what
  it put on the bus is one transaction (after the busy-wait polls, in a build for the
  ATmega32U4; alone otherwise): select, the opcode 0x9F, two bytes read (manufacturer,
  then device), unselect. The word returned is \<open>(manufacturer << 8) | device\<close>, that
  is \<open>256 * manufacturer + device\<close>.
\<close>

theorem readDeviceId_packing:
  assumes "responsive s \<or> \<not> atmega32u4 s"
  shows "\<exists>devid s' pre r hi lo. readDeviceId s = Some (devid, s')
       \<and> (if atmega32u4 s then polling pre else pre = [])
       \<and> emitted s s' = wire pre @ [Select, Xfer SPIFLASH_IDREAD r, Xfer 0 hi, Xfer 0 lo, Unselect]
       \<and> devid = push_bit 8 (ucast hi) OR ucast lo
       \<and> unat devid = 256 * unat hi + unat lo"
proof -
  from readDeviceId_returns [OF assms] obtain devid s' where
    r: "readDeviceId s = Some (devid, s')" by auto
  from readDeviceId_packing_returned [OF r] r show ?thesis by blast
qed

text \<open>
  A device answering 0xEF, 0x30 gives the word 0xEF30.
\<close>

theorem readDeviceId_packing_witness:
  "\<not> atmega32u4 (bench id_replies)
   \<and> readDeviceId (bench id_replies) \<noteq> None
   \<and> fst (the (readDeviceId (bench id_replies))) = 0xEF30
   \<and> emitted (bench id_replies) (snd (the (readDeviceId (bench id_replies))))
       = [Select, Xfer 0x9F 0, Xfer 0 0xEF, Xfer 0 0x30, Unselect]
   \<and> (\<exists>devid s' pre r hi lo. readDeviceId (bench id_replies) = Some (devid, s')
       \<and> (if atmega32u4 (bench id_replies) then polling pre else pre = [])
       \<and> emitted (bench id_replies) s'
           = wire pre @ [Select, Xfer SPIFLASH_IDREAD r, Xfer 0 hi, Xfer 0 lo, Unselect]
       \<and> devid = push_bit 8 (ucast hi) OR ucast lo
       \<and> unat devid = 256 * unat hi + unat lo)"
proof -
  let ?s = "bench id_replies"
  have n: "\<not> atmega32u4 ?s" by (simp add: bench_def)
  then have h: "responsive ?s \<or> \<not> atmega32u4 ?s" by simp
  have r: "readDeviceId ?s \<noteq> None" by (simp add: run_simps)
  have v: "fst (the (readDeviceId ?s)) = 0xEF30"
    by (simp add: run_simps id_replies_def)
  have t: "emitted ?s (snd (the (readDeviceId ?s)))
       = [Select, Xfer 0x9F 0, Xfer 0 0xEF, Xfer 0 0x30, Unselect]"
    by (simp add: run_simps id_replies_def emitted_def)
  from readDeviceId_packing [OF h] n r v t show ?thesis by blast
qed

lemma map_exch_zip: "map exch f = map2 Xfer (map fst f) (map snd f)"
  by (induction f) (simp_all add: exch_def split_beta)

lemma map_exch_zero: "map fst g = replicate n 0 \<Longrightarrow> map exch g = map (Xfer 0) (map snd g)"
proof (induction g arbitrary: n)
  case Nil
  show ?case by simp
next
  case (Cons p g)
  then obtain m where n: "n = Suc m" by (cases n) auto
  with Cons.prems have "fst p = 0" "map fst g = replicate m 0" by simp_all
  with Cons.IH [of m] show ?case by (simp add: exch_def)
qed

lemma readBytes_wire_shape_returned:
  assumes "readBytes addr buf len s = Some (buf', s')"
  shows "\<exists>pre r ra d bs. polling pre \<and> length ra = 3 \<and> length bs = unat len
       \<and> emitted s s' = wire pre @ [Select, Xfer SPIFLASH_ARRAYREAD r]
            @ map2 Xfer (big_endian_24 addr) ra @ [Xfer 0 d] @ map (Xfer 0) bs @ [Unselect]
       \<and> (\<forall>k. buf' k = (if k < unat len then bs ! k else buf k))"
proof -
  from readBytes_shape [OF assms] obtain fs f d g where
    t: "transaction SPIFLASH_ARRAYREAD False (f @ [(0, d)] @ g) fs"
    and f: "map fst f = addr_bytes addr"
    and g: "map fst g = replicate (unat len) 0"
    and b: "buf' = (\<lambda>k. if k < unat len then snd (g ! k) else buf k)"
    and tr: "trace s' = trace s @ wire fs" by blast
  from t obtain pre r where fs: "fs = pre @ [(SPIFLASH_ARRAYREAD, r) # f @ [(0, d)] @ g]"
    and pre: "polling pre" by (auto simp: transaction_def preamble_def)
  have lg: "length g = unat len" using arg_cong [OF g, of length] by simp
  have lf: "length (map snd f) = 3" using arg_cong [OF f, of length] by (simp add: addr_bytes_def)
  have "emitted s s' = wire pre @ [Select, Xfer SPIFLASH_ARRAYREAD r]
      @ map2 Xfer (big_endian_24 addr) (map snd f) @ [Xfer 0 d]
      @ map (Xfer 0) (map snd g) @ [Unselect]"
    using tr by (simp add: emitted_def fs wire_append wire_Cons frame_events_def
        map_exch_zero [OF g] map_exch_zip [of f] f big_endian_24_addr_bytes exch_def)
  moreover have "\<forall>k. buf' k = (if k < unat len then map snd g ! k else buf k)"
    by (simp add: b lg)
  moreover have "length (map snd g) = unat len" by (simp add: lg)
  ultimately show ?thesis using pre lf by blast
qed

lemma readBytes_returns:
  assumes "responsive s"
  shows "\<exists>r. readBytes addr buf len s = Some r"
  using run_returns [OF assms, of "ReadBytes addr buf len"] by auto

lemma responsive_ramp: "responsive (bench ramp_replies)"
proof -
  have "(2 * w) AND 1 = 0" for w :: byte
    by (simp add: and_one_eq mod_2_eq_odd)
  then have "ramp_replies n AND 1 = 0" for n
    by (simp only: ramp_replies_def)
  then show ?thesis by (simp add: responsive_def bench_def)
qed

text \<open>
  Claim C8. On a responsive device \<open>readBytes(addr, buffer, len)\<close> returns, for every
  address and every 16-bit \<open>len\<close>, and what it put on the bus is the busy-wait polls
  followed by one transaction: select, the opcode 0x0B, the three big-endian address
  bytes, exactly one dummy byte, exactly \<open>len\<close> bytes read, unselect. The bytes read
  are stored in order in \<open>buffer[0..len)\<close> and the rest of the buffer is left alone.
\<close>

theorem readBytes_wire_shape:
  assumes "responsive s"
  shows "\<exists>buf' s' pre r ra d bs. readBytes addr buf len s = Some (buf', s')
       \<and> polling pre \<and> length ra = 3 \<and> length bs = unat len
       \<and> emitted s s' = wire pre @ [Select, Xfer SPIFLASH_ARRAYREAD r]
            @ map2 Xfer (big_endian_24 addr) ra @ [Xfer 0 d] @ map (Xfer 0) bs @ [Unselect]
       \<and> (\<forall>k. buf' k = (if k < unat len then bs ! k else buf k))"
proof -
  from readBytes_returns [OF assms, of addr buf len] obtain buf' s' where
    r: "readBytes addr buf len s = Some (buf', s')" by auto
  from readBytes_wire_shape_returned [OF r] obtain pre r' ra d bs where
    "polling pre" "length ra = 3" "length bs = unat len"
    "emitted s s' = wire pre @ [Select, Xfer SPIFLASH_ARRAYREAD r']
            @ map2 Xfer (big_endian_24 addr) ra @ [Xfer 0 d] @ map (Xfer 0) bs @ [Unselect]"
    "\<forall>k. buf' k = (if k < unat len then bs ! k else buf k)" by blast
  with r show ?thesis by blast
qed

text \<open>
  Scenario S5 of the specification: \<open>readBytes(0x012345, buffer, 10)\<close>, on a
  device whose \<open>n\<close>-th reply is \<open>2 * n\<close>.
\<close>

theorem readBytes_wire_shape_witness:
  "responsive (bench ramp_replies)
   \<and> readBytes 0x012345 demo_buf 10 (bench ramp_replies) \<noteq> None
   \<and> emitted (bench ramp_replies)
        (snd (the (readBytes 0x012345 demo_buf 10 (bench ramp_replies))))
       = [Select, Xfer 0x05 0, Xfer 0 2, Unselect,
          Select, Xfer 0x0B 4, Xfer 0x01 6, Xfer 0x23 8, Xfer 0x45 10, Xfer 0 12,
          Xfer 0 14, Xfer 0 16, Xfer 0 18, Xfer 0 20, Xfer 0 22,
          Xfer 0 24, Xfer 0 26, Xfer 0 28, Xfer 0 30, Xfer 0 32, Unselect]
   \<and> map (fst (the (readBytes 0x012345 demo_buf 10 (bench ramp_replies))))
         [0, 1, 2, 3, 4, 5, 6, 7, 8, 9, 10]
       = [14, 16, 18, 20, 22, 24, 26, 28, 30, 32, 11]
   \<and> (\<exists>buf' s' pre r ra d bs.
         readBytes 0x012345 demo_buf 10 (bench ramp_replies) = Some (buf', s')
       \<and> polling pre \<and> length ra = 3 \<and> length bs = unat (10 :: word16)
       \<and> emitted (bench ramp_replies) s'
           = wire pre @ [Select, Xfer SPIFLASH_ARRAYREAD r]
              @ map2 Xfer (big_endian_24 0x012345) ra @ [Xfer 0 d] @ map (Xfer 0) bs
              @ [Unselect]
       \<and> (\<forall>k. buf' k = (if k < unat (10 :: word16) then bs ! k else demo_buf k)))"
proof -
  let ?s = "bench ramp_replies"
  let ?r = "readBytes 0x012345 demo_buf 10 ?s"
  have r: "?r \<noteq> None" by (simp add: run_simps ramp_replies_def)
  have t: "emitted ?s (snd (the ?r))
       = [Select, Xfer 0x05 0, Xfer 0 2, Unselect,
          Select, Xfer 0x0B 4, Xfer 0x01 6, Xfer 0x23 8, Xfer 0x45 10, Xfer 0 12,
          Xfer 0 14, Xfer 0 16, Xfer 0 18, Xfer 0 20, Xfer 0 22,
          Xfer 0 24, Xfer 0 26, Xfer 0 28, Xfer 0 30, Xfer 0 32, Unselect]"
    by (simp add: run_simps ramp_replies_def emitted_def)
  have b: "map (fst (the ?r)) [0, 1, 2, 3, 4, 5, 6, 7, 8, 9, 10]
       = [14, 16, 18, 20, 22, 24, 26, 28, 30, 32, 11]"
    by (simp add: run_simps ramp_replies_def demo_buf_def)
  from readBytes_wire_shape [OF responsive_ramp, of "0x012345" demo_buf 10]
    responsive_ramp r t b show ?thesis by blast
qed

text \<open>
  \<open>readBytes\<close> at 0x012345 sends 0x01, 0x23, 0x45; \<open>writeBytes\<close> of four bytes at
  0x0000FE sends 0x00, 0x00, 0xFE and then 0x00, 0x01, 0x00.
\<close>

theorem address_encoding_witness:
  "responsive idle_flash
   \<and> addressed (ReadBytes 0x012345 demo_buf 10) = Some (SPIFLASH_ARRAYREAD, 0x012345)
   \<and> run (ReadBytes 0x012345 demo_buf 10) idle_flash \<noteq> None
   \<and> emitted idle_flash (the (run (ReadBytes 0x012345 demo_buf 10) idle_flash))
       = wire [[(0x05, 0), (0, 0)],
               [(0x0B, 0), (0x01, 0), (0x23, 0), (0x45, 0), (0, 0),
                (0, 0), (0, 0), (0, 0), (0, 0), (0, 0), (0, 0), (0, 0), (0, 0), (0, 0), (0, 0)]]
   \<and> addressed_from 0x012345 (with_opcode SPIFLASH_ARRAYREAD
        (frames (emitted idle_flash (the (run (ReadBytes 0x012345 demo_buf 10) idle_flash)))))
   \<and> map address_field (with_opcode SPIFLASH_ARRAYREAD
        (frames (emitted idle_flash (the (run (ReadBytes 0x012345 demo_buf 10) idle_flash)))))
       = [[0x01, 0x23, 0x45]]
   \<and> addressed (WriteBytes 0xFE demo_buf 4) = Some (SPIFLASH_BYTEPAGEPROGRAM, 0xFE)
   \<and> run (WriteBytes 0xFE demo_buf 4) idle_flash \<noteq> None
   \<and> addressed_from 0xFE (with_opcode SPIFLASH_BYTEPAGEPROGRAM
        (frames (emitted idle_flash (the (run (WriteBytes 0xFE demo_buf 4) idle_flash)))))
   \<and> map address_field (with_opcode SPIFLASH_BYTEPAGEPROGRAM
        (frames (emitted idle_flash (the (run (WriteBytes 0xFE demo_buf 4) idle_flash)))))
       = [[0x00, 0x00, 0xFE], [0x00, 0x01, 0x00]]"
proof -
  let ?c = "ReadBytes 0x012345 demo_buf 10"
  let ?w = "WriteBytes 0xFE demo_buf 4"
  have rc: "run ?c idle_flash \<noteq> None" by (simp add: run_simps)
  have ac: "addressed ?c = Some (SPIFLASH_ARRAYREAD, 0x012345)" by simp
  have rw: "run ?w idle_flash \<noteq> None" by (simp add: run_simps first_maxBytes_def)
  have aw: "addressed ?w = Some (SPIFLASH_BYTEPAGEPROGRAM, 0xFE)" by simp
  have tc: "emitted idle_flash (the (run ?c idle_flash))
       = wire [[(0x05, 0), (0, 0)],
               [(0x0B, 0), (0x01, 0), (0x23, 0), (0x45, 0), (0, 0),
                (0, 0), (0, 0), (0, 0), (0, 0), (0, 0), (0, 0), (0, 0), (0, 0), (0, 0), (0, 0)]]"
    by (simp add: run_simps emitted_def wire_def)
  have fc: "map address_field (with_opcode SPIFLASH_ARRAYREAD
        (frames (emitted idle_flash (the (run ?c idle_flash))))) = [[0x01, 0x23, 0x45]]"
    by (simp add: run_simps emitted_def with_opcode_def opcode_def address_field_def)
  have fw: "map address_field (with_opcode SPIFLASH_BYTEPAGEPROGRAM
        (frames (emitted idle_flash (the (run ?w idle_flash)))))
       = [[0x00, 0x00, 0xFE], [0x00, 0x01, 0x00]]"
    by (simp add: run_simps first_maxBytes_def emitted_def with_opcode_def opcode_def
          address_field_def)
  from address_encoding [OF responsive_idle(1) ac] obtain s' fs where
    r1: "run ?c idle_flash = Some s'" and e1: "emitted idle_flash s' = wire fs"
    and a1: "addressed_from 0x012345 (with_opcode SPIFLASH_ARRAYREAD fs)" by blast
  have "frames (emitted idle_flash (the (run ?c idle_flash))) = fs"
    by (simp only: r1 option.sel e1 frames_wire)
  with a1 have dc: "addressed_from 0x012345 (with_opcode SPIFLASH_ARRAYREAD
        (frames (emitted idle_flash (the (run ?c idle_flash)))))" by (simp only:)
  from address_encoding [OF responsive_idle(1) aw] obtain s' fs where
    r2: "run ?w idle_flash = Some s'" and e2: "emitted idle_flash s' = wire fs"
    and a2: "addressed_from 0xFE (with_opcode SPIFLASH_BYTEPAGEPROGRAM fs)" by blast
  have "frames (emitted idle_flash (the (run ?w idle_flash))) = fs"
    by (simp only: r2 option.sel e2 frames_wire)
  with a2 have dw: "addressed_from 0xFE (with_opcode SPIFLASH_BYTEPAGEPROGRAM
        (frames (emitted idle_flash (the (run ?w idle_flash)))))" by (simp only:)
  from responsive_idle(1) rc rw ac aw tc fc fw dc dw show ?thesis by blast
qed

end
